theory Spec2Isabelle
  imports Main "HOL-Library.Word"
begin

unbundle bit_operations_syntax

section \<open>Data model\<close>

text \<open>
  The class \<open>Base32Code\<close> of \<open>Base32Code.h\<close> has one private member, the string
  \<open>str_\<close>, which the method \<open>Str()\<close> returns: the field \<open>Str\<close> of the record.
  A C++ \<open>char\<close> of the string is a \<^typ>\<open>char\<close>; a \<open>char\<close> or
  \<open>signed char\<close> used as a number is an \<^typ>\<open>8 word\<close> read with \<^const>\<open>sint\<close>,
  \<open>uint8_t\<close> is an \<^typ>\<open>8 word\<close>, \<open>uint16_t\<close> a \<^typ>\<open>16 word\<close>, \<open>int\<close> a
  \<^typ>\<open>32 word\<close> where its width matters and \<open>size_t\<close> a \<^typ>\<open>64 word\<close> (the LP64 and
  LLP64 data models). The loop counter \<open>shift\<close> of \<open>Encode\<close> and \<open>Decode\<close> stays
  between \<open>-5\<close> and \<open>12\<close> and is an \<^typ>\<open>int\<close>.
\<close>

record Base32Code =
  Str :: string

datatype error = invalid_argument

type_synonym uint8_t = "8 word"
type_synonym uint16_t = "16 word"
type_synonym size_t = "64 word"

definition InvalidDigit :: char where
  "InvalidDigit = CHR 0x00"

definition InvalidValue :: "8 word" where
  "InvalidValue = - 1"

definition DigitBits :: int where
  "DigitBits = 5"

definition CharBits :: int where
  "CharBits = 8"

definition Mask :: uint16_t where
  "Mask = 0x001f"

text \<open>The canonical digits in ascending order of value, in the four rows of the source.\<close>

definition Digits :: "char list" where
  "Digits = ''01234567'' @ ''89ABCDEF'' @ ''GHJKMNPQ'' @ ''RSTVWXYZ''"

section \<open>Digits, values and canonical forms\<close>

text \<open>\<open>std::toupper\<close> in the C locale.\<close>

definition toupper :: "char \<Rightarrow> char" where
  "toupper c =
    (let n = (of_char c :: nat) in if 97 \<le> n \<and> n \<le> 122 then char_of (n - 32) else c)"

text \<open>
  \<open>Base32Code::Canonical\<close>: the \<open>switch\<close> over the digit, one membership test for
  each group of \<open>case\<close> labels that share a \<open>return\<close>, in the order of the source.
\<close>

definition Canonical :: "char \<Rightarrow> char" where
  "Canonical digit =
    (if digit \<in> set ''0oO'' then CHR ''0''
     else if digit \<in> set ''1iIlL'' then CHR ''1''
     else if digit \<in> set ''23456789ABCDEFGHJKMNPQRSTVWXYZ'' then digit
     else if digit \<in> set ''abcdefghjkmnpqrstvwxyz'' then toupper digit
     else InvalidDigit)"

text \<open>\<open>Base32Code::IsValid(const char)\<close> and \<open>Base32Code::IsValid(const std::string&)\<close>.\<close>

definition IsValid :: "char \<Rightarrow> bool" where
  "IsValid c = (Canonical c \<noteq> InvalidDigit)"

definition IsValid_str :: "string \<Rightarrow> bool" where
  "IsValid_str str = list_all IsValid str"

text \<open>
  \<open>Base32Code::Digit(const char value)\<close>. The comparison \<open>sizeof(Digits) <= value\<close>
  converts \<open>value\<close> to \<open>size_t\<close>; it is reached with \<open>value >= 0\<close> only, where the
  conversion keeps the number.
\<close>

definition Digit :: "8 word \<Rightarrow> char" where
  "Digit value =
    (if sint value < 0 \<or> int (length Digits) \<le> sint value then InvalidDigit
     else Digits ! nat (sint value))"

text \<open>
  \<open>std::find\<close> over the table: the offset of the first element equal to \<open>x\<close>, the
  length of the table when there is none.
\<close>

fun find_offset :: "char list \<Rightarrow> char \<Rightarrow> nat" where
  "find_offset [] x = 0"
| "find_offset (d # ds) x = (if d = x then 0 else Suc (find_offset ds x))"

text \<open>
  \<open>Base32Code::Value\<close>. The \<open>assert(0 <= value && value < 32)\<close> of the source is
  the lemma \<open>Value_assert\<close> below: it never fails, so the function is total.
\<close>

definition Value :: "char \<Rightarrow> 8 word" where
  "Value digit =
    (let canonical = Canonical digit in
     if InvalidDigit = canonical then InvalidValue
     else of_nat (find_offset Digits canonical))"

section \<open>Construction\<close>

text \<open>
  The constructor's loop \<open>for (char& c : str_)\<close>: each character is replaced by its
  canonical form, and the first one without a canonical form throws.
\<close>

fun canonicalize :: "string \<Rightarrow> error + string" where
  "canonicalize [] = Inr []"
| "canonicalize (c # cs) =
    (let c' = Canonical c in
     if c' = InvalidDigit then Inl invalid_argument
     else (case canonicalize cs of
             Inl e \<Rightarrow> Inl e
           | Inr cs' \<Rightarrow> Inr (c' # cs')))"

definition Base32Code :: "string \<Rightarrow> error + Base32Code" where
  "Base32Code str =
    (case canonicalize str of
       Inl e \<Rightarrow> Inl e
     | Inr s \<Rightarrow> Inr \<lparr>Str = s\<rparr>)"

definition Size :: "Base32Code \<Rightarrow> nat" where
  "Size c = length (Str c)"

section \<open>Encoding\<close>

text \<open>
  The \<open>do ... while (shift > 0)\<close> loop of \<open>Encode\<close>. It pushes the digit for the
  five bits of \<open>tmp\<close> above bit \<open>shift\<close>. The operands of \<open>&\<close>, \<open><<\<close> and \<open>>>\<close>
  are promoted to \<open>int\<close> in the source; \<open>tmp\<close> has 16 bits and the result is
  narrowed to \<open>char\<close>, so the same bits come out of 16-bit arithmetic. A shift by a
  negative \<open>shift\<close> would be undefined: the body runs with \<open>shift > 0\<close> only, since
  \<open>shift\<close> is at least \<open>-5\<close> before \<open>CharBits()\<close> is added to it.
\<close>

function encode_digits :: "uint16_t \<Rightarrow> int \<Rightarrow> string \<Rightarrow> string \<times> int" where
  "encode_digits tmp shift str =
    (let str1 = str @ [Digit (ucast (drop_bit (nat shift) (tmp AND push_bit (nat shift) Mask)))];
         shift1 = shift - DigitBits
     in if shift1 > 0 then encode_digits tmp shift1 str1 else (str1, shift1))"
  by pat_completeness auto
termination
  by (relation "measure (\<lambda>(tmp, shift, str). nat shift)") (auto simp: DigitBits_def)

declare encode_digits.simps [simp del]

text \<open>The \<open>for\<close> loop over the input bytes, with the state \<open>tmp\<close>, \<open>shift\<close>, \<open>str\<close>.\<close>

fun encode_loop :: "uint8_t list \<Rightarrow> uint16_t \<Rightarrow> int \<Rightarrow> string \<Rightarrow> uint16_t \<times> int \<times> string" where
  "encode_loop [] tmp shift str = (tmp, shift, str)"
| "encode_loop (b # bs) tmp shift str =
    (let tmp1 = push_bit (nat CharBits) tmp;
         shift1 = shift + CharBits;
         tmp2 = tmp1 AND 0xff00;
         tmp3 = tmp2 OR (0x00ff AND ucast b);
         (str1, shift2) = encode_digits tmp3 shift1 str
     in encode_loop bs tmp3 shift2 str1)"

text \<open>
  The string \<open>str\<close> that \<open>Encode\<close> has built when it reaches
  \<open>return Base32Code(std::move(str))\<close>, for a non-empty input.
\<close>

definition Encode_str :: "uint8_t list \<Rightarrow> string" where
  "Encode_str bytes =
    (let (tmp, shift, str) = encode_loop bytes 0 (- DigitBits) [];
         tmp1 = push_bit (nat \<bar>shift\<bar>) tmp
     in str @ [Digit (ucast (tmp1 AND Mask))])"

text \<open>\<open>Base32Code::Encode(InputIt first, InputIt last)\<close> on the bytes of the range.\<close>

definition Encode :: "uint8_t list \<Rightarrow> error + Base32Code" where
  "Encode bytes = (if bytes = [] then Base32Code [] else Base32Code (Encode_str bytes))"

section \<open>Decoding\<close>

text \<open>
  The \<open>for\<close> loop of \<open>Decode\<close> over the digits, with the state \<open>tmp\<close>, \<open>shift\<close> and
  the bytes written to \<open>out\<close> so far. \<open>Value\<close> returns a \<open>signed char\<close>, which
  \<open>&\<close> promotes with its sign. The output iterator of the tests points to
  \<open>uint8_t\<close>, which keeps the low eight bits of \<open>tmp >> shift\<close>.
\<close>

fun decode_loop :: "string \<Rightarrow> uint16_t \<Rightarrow> int \<Rightarrow> uint8_t list \<Rightarrow> uint16_t \<times> int \<times> uint8_t list" where
  "decode_loop [] tmp shift out = (tmp, shift, out)"
| "decode_loop (c # cs) tmp shift out =
    (let tmp1 = push_bit (nat DigitBits) tmp;
         shift1 = shift + DigitBits;
         tmp2 = tmp1 AND NOT Mask;
         tmp3 = tmp2 OR (Mask AND scast (Value c))
     in if shift1 \<ge> CharBits
        then (let shift2 = shift1 - CharBits
              in decode_loop cs tmp3 shift2 (out @ [ucast (drop_bit (nat shift2) tmp3)]))
        else decode_loop cs tmp3 shift1 out)"

text \<open>\<open>Base32Code::Decode\<close>: the bytes written to \<open>out\<close>, in order.\<close>

definition Decode :: "Base32Code \<Rightarrow> uint8_t list" where
  "Decode c =
    (let (tmp, shift, out) = decode_loop (Str c) 0 0 []
     in if shift > 0 then out @ [ucast (push_bit (nat (CharBits - shift)) tmp)] else out)"

section \<open>Decoded size\<close>

text \<open>\<open>std::div\<close> on \<open>int\<close>: the quotient truncated towards zero, and the remainder.\<close>

definition std_div :: "int \<Rightarrow> int \<Rightarrow> int \<times> int" where
  "std_div x y = (let quot = sgn x * sgn y * (\<bar>x\<bar> div \<bar>y\<bar>) in (quot, x - quot * y))"

text \<open>
  \<open>Base32Code::DecodedSize(size_t digits)\<close>. \<open>static_cast<int>\<close> keeps the low 32
  bits of \<open>digits\<close> as a signed number. The product with \<open>DigitBits()\<close> is an
  \<open>int\<close>: outside the range of \<open>int\<close> the behaviour is undefined, which is the result
  \<open>None\<close>. The \<open>int\<close> result is converted to \<open>size_t\<close> on return.
\<close>

definition DecodedSize :: "size_t \<Rightarrow> size_t option" where
  "DecodedSize digits =
    (let d = sint (ucast digits :: 32 word);
         n = d * DigitBits
     in if n < - (2 ^ 31) \<or> 2 ^ 31 \<le> n then None
        else (let (quot, rem) = std_div n CharBits;
                  size = quot + (if rem \<noteq> 0 then 1 else 0)
              in Some (of_int size)))"

text \<open>The method \<open>DecodedSize()\<close> of a code: \<open>DecodedSize(Size())\<close>.\<close>

definition Code_DecodedSize :: "Base32Code \<Rightarrow> size_t option" where
  "Code_DecodedSize c = DecodedSize (of_nat (Size c))"

section \<open>Positional notation\<close>

text \<open>
  The statements below read a byte sequence and a code as numbers written most
  significant digit first: \<open>be_digits B k n\<close> are the \<open>k\<close> lowest digits of \<open>n\<close> in base
  \<open>B\<close>, and \<open>be_val B ds\<close> is the number that the digits \<open>ds\<close> write in base \<open>B\<close>.
\<close>

fun be_digits :: "nat \<Rightarrow> nat \<Rightarrow> nat \<Rightarrow> nat list" where
  "be_digits B 0 n = []"
| "be_digits B (Suc k) n = be_digits B k (n div B) @ [n mod B]"

definition be_val :: "nat \<Rightarrow> nat list \<Rightarrow> nat" where
  "be_val B ds = foldl (\<lambda>a d. a * B + d) 0 ds"

section \<open>The encoding as the specification words it\<close>

text \<open>
  The specification of \<open>Encode\<close>: the bytes are one bit sequence, most significant
  bit first within each byte; the sequence is cut into consecutive groups of five bits;
  a last group with fewer than five bits is filled with zero bits at its low end; each
  group is the digit of its value.
\<close>

definition byte_bits :: "uint8_t \<Rightarrow> bool list" where
  "byte_bits b = map (bit b) [7, 6, 5, 4, 3, 2, 1, 0]"

definition bit_sequence :: "uint8_t list \<Rightarrow> bool list" where
  "bit_sequence bytes = concat (map byte_bits bytes)"

fun groups5 :: "bool list \<Rightarrow> bool list list" where
  "groups5 [] = []"
| "groups5 (x # xs) =
    (let g = take 5 (x # xs)
     in (g @ replicate (5 - length g) False) # groups5 (drop 5 (x # xs)))"

definition group_value :: "bool list \<Rightarrow> nat" where
  "group_value g = foldl (\<lambda>a x. a * 2 + of_bool x) 0 g"

definition Encode_spec :: "uint8_t list \<Rightarrow> string" where
  "Encode_spec bytes = map (\<lambda>g. Digit (of_nat (group_value g))) (groups5 (bit_sequence bytes))"

section \<open>The digit table and canonical forms\<close>

lemma length_Digits: "length Digits = 32"
  by (simp add: Digits_def)

lemma distinct_Digits: "distinct Digits"
  by (simp add: Digits_def)

lemma InvalidDigit_notin_Digits: "InvalidDigit \<notin> set Digits"
  by (simp add: Digits_def InvalidDigit_def)

lemma map_eq_on_set: "map f xs = map g xs \<Longrightarrow> c \<in> set xs \<Longrightarrow> f c = g c"
  by (simp add: map_eq_conv)

lemma toupper_lower:
  "map toupper ''abcdefghjkmnpqrstvwxyz'' = ''ABCDEFGHJKMNPQRSTVWXYZ''"
  by (simp add: toupper_def char_of_eq_iff)

lemma Canonical_zero_aliases: "map Canonical ''0oO'' = map (\<lambda>c. CHR ''0'') ''0oO''"
  by (simp add: Canonical_def)

lemma Canonical_one_aliases: "map Canonical ''1iIlL'' = map (\<lambda>c. CHR ''1'') ''1iIlL''"
  by (simp add: Canonical_def)

lemma Canonical_upper:
  "map Canonical ''23456789ABCDEFGHJKMNPQRSTVWXYZ'' = map (\<lambda>c. c) ''23456789ABCDEFGHJKMNPQRSTVWXYZ''"
  by (simp add: Canonical_def)

lemma Canonical_lower:
  "map Canonical ''abcdefghjkmnpqrstvwxyz'' = ''ABCDEFGHJKMNPQRSTVWXYZ''"
  by (simp add: Canonical_def toupper_def char_of_eq_iff)

lemma Canonical_other:
  "c \<notin> set ''0oO1iIlL23456789ABCDEFGHJKMNPQRSTVWXYZabcdefghjkmnpqrstvwxyz''
    \<Longrightarrow> Canonical c = InvalidDigit"
  by (simp add: Canonical_def)

lemma Canonical_InvalidDigit: "Canonical InvalidDigit = InvalidDigit"
  by (simp add: Canonical_def InvalidDigit_def)

lemma map_Canonical_Digits: "map Canonical Digits = map (\<lambda>c. c) Digits"
  by (simp add: Digits_def Canonical_def)

lemma Canonical_Digits: "c \<in> set Digits \<Longrightarrow> Canonical c = c"
  by (rule map_eq_on_set [OF map_Canonical_Digits])

lemma valid_chars_split:
  "set ''0oO1iIlL23456789ABCDEFGHJKMNPQRSTVWXYZabcdefghjkmnpqrstvwxyz'' =
    set ''0oO'' \<union> set ''1iIlL'' \<union> set ''23456789ABCDEFGHJKMNPQRSTVWXYZ''
      \<union> set ''abcdefghjkmnpqrstvwxyz''"
  by (simp only: set_append [symmetric] append.simps)

lemma Canonical_range: "Canonical c \<noteq> InvalidDigit \<Longrightarrow> Canonical c \<in> set Digits"
proof -
  assume valid: "Canonical c \<noteq> InvalidDigit"
  then have "c \<in> set ''0oO1iIlL23456789ABCDEFGHJKMNPQRSTVWXYZabcdefghjkmnpqrstvwxyz''"
    using Canonical_other by blast
  then consider (zero) "c \<in> set ''0oO''" | (one) "c \<in> set ''1iIlL''"
    | (upper) "c \<in> set ''23456789ABCDEFGHJKMNPQRSTVWXYZ''"
    | (lower) "c \<in> set ''abcdefghjkmnpqrstvwxyz''"
    unfolding valid_chars_split by blast
  then show ?thesis
  proof cases
    case zero
    from map_eq_on_set [OF Canonical_zero_aliases this]
    show ?thesis by (simp add: Digits_def)
  next
    case one
    from map_eq_on_set [OF Canonical_one_aliases this]
    show ?thesis by (simp add: Digits_def)
  next
    case upper
    have "set ''23456789ABCDEFGHJKMNPQRSTVWXYZ'' \<subseteq> set Digits"
      by (simp add: Digits_def)
    with upper map_eq_on_set [OF Canonical_upper upper] show ?thesis by auto
  next
    case lower
    have "set ''ABCDEFGHJKMNPQRSTVWXYZ'' \<subseteq> set Digits"
      by (simp add: Digits_def)
    moreover have "Canonical c \<in> set (map Canonical ''abcdefghjkmnpqrstvwxyz'')"
      using lower by (simp only: set_map) (rule imageI)
    ultimately show ?thesis unfolding Canonical_lower by auto
  qed
qed

lemma Canonical_idem: "Canonical (Canonical c) = Canonical c"
proof (cases "Canonical c = InvalidDigit")
  case True
  then show ?thesis by (simp add: Canonical_InvalidDigit)
next
  case False
  then show ?thesis by (rule Canonical_Digits [OF Canonical_range])
qed

lemma find_offset_nth: "distinct ds \<Longrightarrow> i < length ds \<Longrightarrow> find_offset ds (ds ! i) = i"
  by (induction ds arbitrary: i) (auto simp: nth_Cons split: nat.splits)

lemma find_offset_less: "x \<in> set ds \<Longrightarrow> find_offset ds x < length ds"
  by (induction ds) auto

lemma nth_find_offset: "x \<in> set ds \<Longrightarrow> ds ! find_offset ds x = x"
  by (induction ds) auto

text \<open>The assertion \<open>assert(0 <= value && value < 32)\<close> of \<open>Value\<close> holds whenever it is reached.\<close>

lemma Value_assert:
  "Canonical digit \<noteq> InvalidDigit \<Longrightarrow> find_offset Digits (Canonical digit) < 32"
  using find_offset_less [OF Canonical_range, of digit] by (simp add: length_Digits)

lemma Value_Digits_nth: "i < 32 \<Longrightarrow> Value (Digits ! i) = of_nat i"
proof -
  assume i: "i < 32"
  then have mem: "Digits ! i \<in> set Digits" by (simp add: length_Digits)
  then have "Canonical (Digits ! i) = Digits ! i" by (rule Canonical_Digits)
  moreover have "Digits ! i \<noteq> InvalidDigit" using mem InvalidDigit_notin_Digits by metis
  moreover have "find_offset Digits (Digits ! i) = i"
    using i by (simp add: find_offset_nth distinct_Digits length_Digits)
  ultimately show ?thesis by (simp add: Value_def)
qed

lemma sint_of_nat_small: "i < 128 \<Longrightarrow> sint (of_nat i :: 8 word) = int i"
  by (simp add: signed_of_nat signed_take_bit_int_eq_self)

lemma Digit_of_nat: "i < 32 \<Longrightarrow> Digit (of_nat i) = Digits ! i"
  by (simp add: Digit_def length_Digits sint_of_nat_small)

lemma Digit_in_Digits: "i < 32 \<Longrightarrow> Digit (of_nat i) \<in> set Digits"
  by (simp add: Digit_of_nat length_Digits)

lemma Value_Digit: "i < 32 \<Longrightarrow> Value (Digit (of_nat i)) = of_nat i"
  by (simp add: Digit_of_nat Value_Digits_nth)

lemma Digit_Value: "c \<in> set Digits \<Longrightarrow> Digit (Value c) = c"
proof -
  assume "c \<in> set Digits"
  then obtain i where "i < 32" "c = Digits ! i"
    by (auto simp: in_set_conv_nth length_Digits)
  then show ?thesis by (simp add: Value_Digits_nth Digit_of_nat)
qed

lemma Value_less: "c \<in> set Digits \<Longrightarrow> unat (Value c) < 32"
proof -
  assume "c \<in> set Digits"
  then obtain i where "i < 32" "c = Digits ! i"
    by (auto simp: in_set_conv_nth length_Digits)
  then show ?thesis by (simp add: Value_Digits_nth unat_of_nat)
qed

section \<open>Construction\<close>

lemma canonicalize_eq:
  "canonicalize s =
    (if \<forall>c \<in> set s. Canonical c \<noteq> InvalidDigit then Inr (map Canonical s)
     else Inl invalid_argument)"
  by (induction s) (simp_all add: Let_def)

lemma Base32Code_Inr:
  "\<forall>c \<in> set s. Canonical c \<noteq> InvalidDigit \<Longrightarrow> Base32Code s = Inr \<lparr>Str = map Canonical s\<rparr>"
  by (simp add: Base32Code_def canonicalize_eq)

lemma Base32Code_Inl:
  "\<exists>c \<in> set s. Canonical c = InvalidDigit \<Longrightarrow> Base32Code s = Inl invalid_argument"
  by (simp add: Base32Code_def canonicalize_eq)

lemma Base32Code_canonical: "set s \<subseteq> set Digits \<Longrightarrow> Base32Code s = Inr \<lparr>Str = s\<rparr>"
proof -
  assume sub: "set s \<subseteq> set Digits"
  then have "\<forall>c \<in> set s. Canonical c \<noteq> InvalidDigit"
    using Canonical_Digits InvalidDigit_notin_Digits by (metis subsetD)
  moreover have "map Canonical s = s"
    using sub Canonical_Digits by (simp add: map_idI subsetD)
  ultimately show ?thesis by (simp add: Base32Code_Inr)
qed

text \<open>Every code that the constructor returns consists of canonical digits.\<close>

lemma Base32Code_digits: "Base32Code s = Inr c \<Longrightarrow> set (Str c) \<subseteq> set Digits"
proof -
  assume ok: "Base32Code s = Inr c"
  have valid: "\<forall>x \<in> set s. Canonical x \<noteq> InvalidDigit"
  proof (rule ccontr)
    assume "\<not> ?thesis"
    then have "Base32Code s = Inl invalid_argument" by (intro Base32Code_Inl) blast
    with ok show False by simp
  qed
  then have "c = \<lparr>Str = map Canonical s\<rparr>" using ok by (simp add: Base32Code_Inr)
  then show ?thesis using valid Canonical_range by auto
qed

section \<open>The arithmetic of the shift register\<close>

text \<open>What the bit operations on \<open>tmp\<close> compute, on the number \<open>unat tmp\<close>.\<close>

lemma Mask_mask: "Mask = mask 5"
  by (simp add: Mask_def mask_eq_exp_minus_1)

lemma digit_extract: "ucast (drop_bit s (tmp AND push_bit s Mask)) = (of_nat (take_bit 5 (drop_bit s (unat tmp))) :: 8 word)"
  for tmp :: "16 word"
  unfolding Mask_mask
  by (rule bit_word_eqI) (auto simp: bit_simps dest: bit_imp_le_length)

lemma last_digit_extract: "ucast (push_bit p tmp AND Mask) = (of_nat (take_bit 5 (push_bit p (unat tmp))) :: 8 word)"
  for tmp :: "16 word"
  unfolding Mask_mask
  by (rule bit_word_eqI) (auto simp: bit_simps dest: bit_imp_le_length)

lemma byte_extract: "ucast (drop_bit s tmp) = (of_nat (take_bit 8 (drop_bit s (unat tmp))) :: 8 word)"
  for tmp :: "16 word"
  by (rule bit_word_eqI) (auto simp: bit_simps dest: bit_imp_le_length)

lemma last_byte_extract: "ucast (push_bit p tmp) = (of_nat (take_bit 8 (push_bit p (unat tmp))) :: 8 word)"
  for tmp :: "16 word"
  by (rule bit_word_eqI) (auto simp: bit_simps dest: bit_imp_le_length)

lemma encode_tmp_or: "unat ((push_bit 8 tmp AND 0xff00) OR (0x00ff AND ucast b)) = push_bit 8 (take_bit 8 (unat tmp)) OR unat b"
  for tmp :: "16 word" and b :: "8 word"
proof -
  have m: "(0xff00 :: 16 word) = push_bit 8 (mask 8)" "(0xff :: 16 word) = mask 8"
    by (simp_all add: mask_eq_exp_minus_1 push_bit_eq_mult)
  show ?thesis
    unfolding m
    by (rule bit_eqI) (auto simp: bit_simps dest: bit_imp_le_length)
qed

lemma encode_tmp: "unat ((push_bit 8 tmp AND 0xff00) OR (0x00ff AND ucast b)) = push_bit 8 (take_bit 8 (unat tmp)) + unat b"
  for tmp :: "16 word" and b :: "8 word"
proof -
  have "push_bit 8 (take_bit 8 (unat tmp)) + unat b = push_bit 8 (take_bit 8 (unat tmp)) OR unat b"
    by (rule disjunctive_add) (auto simp: bit_simps dest: bit_imp_le_length)
  then show ?thesis by (simp only: encode_tmp_or)
qed

lemma decode_tmp_or: "unat ((push_bit 5 tmp AND NOT Mask) OR (Mask AND scast w))
   = take_bit 16 (push_bit 5 (unat tmp)) OR take_bit 5 (unat w)"
  for tmp :: "16 word" and w :: "8 word"
  unfolding Mask_mask
  by (rule bit_eqI) (auto simp: bit_simps dest: bit_imp_le_length)

lemma decode_tmp: "unat ((push_bit 5 tmp AND NOT Mask) OR (Mask AND scast w))
   = take_bit 16 (push_bit 5 (unat tmp)) + take_bit 5 (unat w)"
  for tmp :: "16 word" and w :: "8 word"
proof -
  have "take_bit 16 (push_bit 5 (unat tmp)) + take_bit 5 (unat w)
      = take_bit 16 (push_bit 5 (unat tmp)) OR take_bit 5 (unat w)"
    by (rule disjunctive_add) (auto simp: bit_simps dest: bit_imp_le_length)
  then show ?thesis by (simp only: decode_tmp_or)
qed

section \<open>Digits of a number\<close>

lemma length_be_digits: "length (be_digits B k n) = k"
  by (induction k arbitrary: n) simp_all

lemma be_digits_less: "0 < B \<Longrightarrow> d \<in> set (be_digits B k n) \<Longrightarrow> d < B"
  by (induction k arbitrary: n) auto

lemma be_val_Nil: "be_val B [] = 0"
  by (simp add: be_val_def)

lemma be_val_snoc: "be_val B (ds @ [d]) = be_val B ds * B + d"
  by (simp add: be_val_def)

lemma be_val_append: "be_val B (xs @ ys) = be_val B xs * B ^ length ys + be_val B ys"
proof (induction ys rule: rev_induct)
  case Nil
  then show ?case by (simp add: be_val_Nil)
next
  case (snoc y ys)
  have "be_val B (xs @ ys @ [y]) = be_val B ((xs @ ys) @ [y])" by simp
  also have "\<dots> = be_val B (xs @ ys) * B + y" by (rule be_val_snoc)
  finally show ?case by (simp add: snoc be_val_snoc algebra_simps)
qed

lemma be_val_Cons: "be_val B (d # ds) = d * B ^ length ds + be_val B ds"
  using be_val_append [of B "[d]" ds] by (simp add: be_val_def)

lemma be_val_less: "\<forall>d \<in> set ds. d < B \<Longrightarrow> be_val B ds < B ^ length ds"
proof (induction ds rule: rev_induct)
  case Nil
  then show ?case by (simp add: be_val_Nil)
next
  case (snoc d ds)
  then have "be_val B ds < B ^ length ds" "d < B" by simp_all
  then have "be_val B ds * B + d < (be_val B ds + 1) * B" by simp
  also have "\<dots> \<le> B ^ length ds * B"
    using \<open>be_val B ds < B ^ length ds\<close> by (intro mult_le_mono1) simp
  finally show ?case by (simp add: be_val_snoc mult.commute)
qed

lemma be_digits_be_val:
  "\<forall>d \<in> set ds. d < B \<Longrightarrow> be_digits B (length ds) (be_val B ds) = ds"
proof (induction ds rule: rev_induct)
  case Nil
  then show ?case by simp
next
  case (snoc d ds)
  then have "d < B" by simp
  then have "(be_val B ds * B + d) div B = be_val B ds" "(be_val B ds * B + d) mod B = d"
    by simp_all
  with snoc show ?case by (simp add: be_val_snoc)
qed

lemma be_val_be_digits: "n < B ^ k \<Longrightarrow> be_val B (be_digits B k n) = n"
proof (induction k arbitrary: n)
  case 0
  then show ?case by (simp add: be_val_Nil)
next
  case (Suc k)
  then have "n div B < B ^ k"
    by (simp add: less_mult_imp_div_less mult.commute)
  then show ?case by (simp add: be_val_snoc Suc.IH)
qed

lemma be_digits_shift: "0 < B \<Longrightarrow> be_digits B (k + j) (n * B ^ j) = be_digits B k n @ replicate j 0"
proof (induction j)
  case 0
  then show ?case by simp
next
  case (Suc j)
  have "n * B ^ Suc j div B = n * B ^ j" "n * B ^ Suc j mod B = 0"
    using Suc.prems by simp_all
  then show ?case using Suc by (simp add: replicate_append_same)
qed

lemma be_digits_head:
  "r < B ^ k \<Longrightarrow> be_digits B (Suc k) (a * B ^ k + r) = (a mod B) # be_digits B k r"
proof (induction k arbitrary: r)
  case 0
  then show ?case by simp
next
  case (Suc k)
  then have B: "0 < B" by (cases B) simp_all
  have r: "r div B < B ^ k"
    using Suc.prems by (simp add: less_mult_imp_div_less mult.commute)
  have "(a * B ^ Suc k + r) div B = a * B ^ k + r div B"
    using B by (simp add: algebra_simps div_mult_self4)
  moreover have "(a * B ^ Suc k + r) mod B = r mod B"
    by (simp add: algebra_simps)
  ultimately have "be_digits B (Suc (Suc k)) (a * B ^ Suc k + r)
      = be_digits B (Suc k) (a * B ^ k + r div B) @ [r mod B]"
    by simp
  also have "\<dots> = ((a mod B) # be_digits B k (r div B)) @ [r mod B]"
    by (simp only: Suc.IH [OF r])
  finally show ?case by simp
qed

section \<open>The loops of Encode\<close>

lemma be_digits_Suc_drop:
  "be_digits 32 k (drop_bit (s + 5) N) @ [take_bit 5 (drop_bit s N)] = be_digits 32 (Suc k) (drop_bit s N)"
  by (simp add: drop_bit_eq_div take_bit_eq_mod power_add div_mult2_eq)

lemma take_bit_window:
  "take_bit w a = take_bit w b \<Longrightarrow> v \<le> w \<Longrightarrow> take_bit v a = take_bit v (b :: nat)"
  by (metis min.absorb1 take_bit_take_bit)

lemma digit_window:
  "take_bit (s + 5) a = take_bit (s + 5) (b :: nat) \<Longrightarrow> take_bit 5 (drop_bit s a) = take_bit 5 (drop_bit s b)"
  by (simp add: take_bit_drop_bit add.commute)

lemma div_mod_5_step:
  "0 < s' \<Longrightarrow> s = s' + 5 \<Longrightarrow>
    (s - 1) div 5 = Suc ((s' - 1) div 5) \<and> (s - 1) mod 5 = (s' - 1) mod (5::nat)"
proof -
  assume "0 < s'" "s = s' + 5"
  then have "s - 1 = (s' - 1) + 5" by simp
  then show ?thesis by simp
qed

text \<open>One round of the \<open>do ... while\<close> loop.\<close>

lemma encode_digits_step:
  assumes d: "take_bit 5 (drop_bit s (unat tmp)) = take_bit 5 (drop_bit s N)"
  shows "encode_digits tmp (int s) (map (\<lambda>v. Digit (of_nat v)) (be_digits 32 k (drop_bit (s + 5) N)))
      = (if 5 < s
         then encode_digits tmp (int (s - 5)) (map (\<lambda>v. Digit (of_nat v)) (be_digits 32 (Suc k) (drop_bit s N)))
         else (map (\<lambda>v. Digit (of_nat v)) (be_digits 32 (Suc k) (drop_bit s N)), int s - 5))"
proof -
  have str1: "map (\<lambda>v. Digit (of_nat v)) (be_digits 32 k (drop_bit (s + 5) N))
        @ [Digit (of_nat (take_bit 5 (drop_bit s N)))]
      = map (\<lambda>v. Digit (of_nat v)) (be_digits 32 (Suc k) (drop_bit s N))"
    by (simp only: be_digits_Suc_drop [symmetric] map_append list.map)
  show ?thesis
    apply (subst encode_digits.simps)
    apply (simp only: Let_def DigitBits_def digit_extract nat_int d str1)
    apply (simp add: of_nat_diff)
    done
qed

text \<open>
  The whole \<open>do ... while\<close> loop, entered with \<open>shift = s > 0\<close>, when the low \<open>s + 5\<close>
  bits of \<open>tmp\<close> are those of the number \<open>N\<close>: it appends the digits of \<open>N\<close> down to
  the last full group above bit 0 and leaves between one and five bits.
\<close>

lemma encode_digits_run:
  "0 < s \<Longrightarrow> take_bit (s + 5) (unat tmp) = take_bit (s + 5) N \<Longrightarrow>
    encode_digits tmp (int s) (map (\<lambda>v. Digit (of_nat v)) (be_digits 32 k (drop_bit (s + 5) N)))
      = (map (\<lambda>v. Digit (of_nat v))
           (be_digits 32 (k + (s - 1) div 5 + 1) (drop_bit ((s - 1) mod 5 + 1) N)),
         int ((s - 1) mod 5 + 1) - 5)"
proof (induction s arbitrary: k rule: less_induct)
  case (less s)
  have d: "take_bit 5 (drop_bit s (unat tmp)) = take_bit 5 (drop_bit s N)"
    using less.prems(2) by (rule digit_window)
  show ?case
  proof (cases "5 < s")
    case True
    define s' where "s' = s - 5"
    have s': "0 < s'" "s' < s" "s = s' + 5" using True by (simp_all add: s'_def)
    have win: "take_bit (s' + 5) (unat tmp) = take_bit (s' + 5) N"
      using less.prems(2) by (rule take_bit_window) (simp add: s')
    have ar: "(s - 1) div 5 = Suc ((s' - 1) div 5)" "(s - 1) mod 5 = (s' - 1) mod 5"
      using div_mod_5_step [OF s'(1) s'(3)] by simp_all
    have "encode_digits tmp (int s) (map (\<lambda>v. Digit (of_nat v)) (be_digits 32 k (drop_bit (s + 5) N)))
      = encode_digits tmp (int s') (map (\<lambda>v. Digit (of_nat v)) (be_digits 32 (Suc k) (drop_bit (s' + 5) N)))"
      using True by (simp only: encode_digits_step [OF d] if_True s'_def [symmetric] s'(3) [symmetric])
    also have "\<dots> = (map (\<lambda>v. Digit (of_nat v))
           (be_digits 32 (Suc k + (s' - 1) div 5 + 1) (drop_bit ((s' - 1) mod 5 + 1) N)),
         int ((s' - 1) mod 5 + 1) - 5)"
      using less.IH [OF s'(2) s'(1) win] .
    finally show ?thesis by (simp only: ar) simp
  next
    case False
    then have ar: "(s - 1) div 5 = 0" "(s - 1) mod 5 + 1 = s"
      using less.prems(1) by simp_all
    have "encode_digits tmp (int s) (map (\<lambda>v. Digit (of_nat v)) (be_digits 32 k (drop_bit (s + 5) N)))
      = (map (\<lambda>v. Digit (of_nat v)) (be_digits 32 (Suc k) (drop_bit s N)), int s - 5)"
      using False by (simp only: encode_digits_step [OF d] if_False)
    then show ?thesis by (simp only: ar) simp
  qed
qed

lemma take_bit_byte_append:
  "b < 256 \<Longrightarrow> take_bit (u + 8) (y * 256 + b) = take_bit u y * 256 + (b :: nat)"
proof -
  assume b: "b < 256"
  have "(y * 256 + b) mod (256 * 2 ^ u) = 256 * ((y * 256 + b) div 256 mod 2 ^ u) + (y * 256 + b) mod 256"
    by (rule mod_mult2_eq)
  with b show ?thesis by (simp add: take_bit_eq_mod power_add mult.commute)
qed

lemma encode_window:
  assumes "b < 256" "u \<le> 8" "take_bit u x = take_bit u (V :: nat)"
  shows "take_bit (u + 8) (push_bit 8 (take_bit 8 x) + b) = take_bit (u + 8) (V * 256 + b)"
proof -
  have "take_bit u (take_bit 8 x) = take_bit u x"
    using assms(2) by (simp add: min_def)
  then show ?thesis
    using assms(1,3) by (simp add: push_bit_eq_mult take_bit_byte_append)
qed

lemma drop_bit_byte_append: "b < 256 \<Longrightarrow> drop_bit (u + 8) (V * 256 + b) = drop_bit u (V :: nat)"
proof -
  assume b: "b < 256"
  have "(V * 256 + b) div (256 * 2 ^ u) = (V * 256 + b) div 256 div 2 ^ u"
    by (rule div_mult2_eq)
  with b show ?thesis by (simp add: drop_bit_eq_div power_add mult.commute)
qed

text \<open>
  The \<open>for\<close> loop of \<open>Encode\<close>. Between two bytes \<open>shift = u - 5\<close>, where \<open>u\<close> is the
  number of bits read and not yet written as a digit; the low \<open>u\<close> bits of \<open>tmp\<close> are
  those bits, and \<open>str\<close> holds the digits of all the bits above them.
\<close>

lemma encode_loop_run:
  "u \<le> 5 \<Longrightarrow> take_bit u (unat tmp) = take_bit u V \<Longrightarrow>
    \<exists>tmp' u' k'.
      encode_loop bs tmp (int u - 5) (map (\<lambda>v. Digit (of_nat v)) (be_digits 32 k (drop_bit u V)))
        = (tmp', int u' - 5,
           map (\<lambda>v. Digit (of_nat v))
             (be_digits 32 k' (drop_bit u' (V * 256 ^ length bs + be_val 256 (map unat bs)))))
      \<and> u' \<le> 5 \<and> (bs \<noteq> [] \<longrightarrow> 0 < u')
      \<and> take_bit u' (unat tmp') = take_bit u' (V * 256 ^ length bs + be_val 256 (map unat bs))
      \<and> 5 * k' + u' = 5 * k + u + 8 * length bs"
proof (induction bs arbitrary: tmp u k V)
  case Nil
  then show ?case by (simp add: be_val_Nil)
next
  case (Cons b bs)
  define tmp3 :: uint16_t where "tmp3 = (push_bit 8 tmp AND 0xff00) OR (0x00ff AND ucast b)"
  define V1 where "V1 = V * 256 + unat b"
  define s where "s = u + 3"
  define u1 where "u1 = (s - 1) mod 5 + 1"
  define k1 where "k1 = k + (s - 1) div 5 + 1"
  have b: "unat b < 256" using unsigned_less [of b] by simp
  have tmp3: "unat tmp3 = push_bit 8 (take_bit 8 (unat tmp)) + unat b"
    unfolding tmp3_def by (rule encode_tmp)
  have win8: "take_bit (s + 5) (unat tmp3) = take_bit (s + 5) V1"
    using encode_window [OF b _ Cons.prems(2)] Cons.prems(1)
    by (simp add: tmp3 V1_def s_def add.commute)
  have dr: "drop_bit (s + 5) V1 = drop_bit u V"
    using drop_bit_byte_append [OF b, of u V] by (simp add: V1_def s_def add.commute)
  have run: "encode_digits tmp3 (int s) (map (\<lambda>v. Digit (of_nat v)) (be_digits 32 k (drop_bit u V)))
      = (map (\<lambda>v. Digit (of_nat v)) (be_digits 32 k1 (drop_bit u1 V1)), int u1 - 5)"
    using encode_digits_run [of s tmp3 V1 k] win8
    by (simp only: dr u1_def k1_def) (simp add: s_def)
  have shift: "int u - 5 + 8 = int s" by (simp add: s_def)
  have unfold: "encode_loop (b # bs) tmp (int u - 5) (map (\<lambda>v. Digit (of_nat v)) (be_digits 32 k (drop_bit u V)))
      = encode_loop bs tmp3 (int u1 - 5) (map (\<lambda>v. Digit (of_nat v)) (be_digits 32 k1 (drop_bit u1 V1)))"
    by (simp add: Let_def CharBits_def shift tmp3_def [symmetric] run)
  have u1: "u1 \<le> 5" "0 < u1" by (simp_all add: u1_def)
  have win1: "take_bit u1 (unat tmp3) = take_bit u1 V1"
    using win8 by (rule take_bit_window) (use u1 in simp)
  have count: "5 * k1 + u1 = 5 * k + u + 8"
  proof -
    have "5 * ((s - 1) div 5) + (s - 1) mod 5 = s - 1" by simp
    then show ?thesis by (simp add: k1_def u1_def s_def)
  qed
  have V': "V1 * 256 ^ length bs + be_val 256 (map unat bs)
      = V * 256 ^ length (b # bs) + be_val 256 (map unat (b # bs))"
    by (simp add: V1_def be_val_Cons algebra_simps)
  from Cons.IH [OF u1(1) win1, of k1]
  obtain tmp' u' k' where
    res: "encode_loop bs tmp3 (int u1 - 5) (map (\<lambda>v. Digit (of_nat v)) (be_digits 32 k1 (drop_bit u1 V1)))
        = (tmp', int u' - 5,
           map (\<lambda>v. Digit (of_nat v))
             (be_digits 32 k' (drop_bit u' (V1 * 256 ^ length bs + be_val 256 (map unat bs)))))"
    and u': "u' \<le> 5" "bs \<noteq> [] \<longrightarrow> 0 < u'"
    and win': "take_bit u' (unat tmp') = take_bit u' (V1 * 256 ^ length bs + be_val 256 (map unat bs))"
    and cnt': "5 * k' + u' = 5 * k1 + u1 + 8 * length bs"
    by blast
  have pos: "0 < u'"
  proof (cases bs)
    case Nil
    with res have "int u' - 5 = int u1 - 5" by simp
    with u1 show ?thesis by simp
  next
    case (Cons a as)
    with u'(2) show ?thesis by simp
  qed
  have cnt: "5 * k' + u' = 5 * k + u + 8 * length (b # bs)"
    using cnt' count by simp
  show ?case
    unfolding unfold V' [symmetric]
    using res u'(1) pos win' cnt by blast
qed

lemma last_digit_window:
  "u \<le> 5 \<Longrightarrow> take_bit u x = take_bit u (N :: nat) \<Longrightarrow>
    take_bit 5 (push_bit (5 - u) x) = take_bit 5 (push_bit (5 - u) N)"
  by (simp add: take_bit_push_bit)

lemma be_digits_Suc_push:
  "u \<le> 5 \<Longrightarrow>
    be_digits 32 k (drop_bit u N) @ [take_bit 5 (push_bit (5 - u) N)]
      = be_digits 32 (Suc k) (N * 2 ^ (5 - u))"
proof -
  assume u: "u \<le> 5"
  have "drop_bit 5 (push_bit (5 - u) N) = drop_bit u N"
    using u by (simp add: drop_bit_push_bit)
  then have "N * 2 ^ (5 - u) div 32 = drop_bit u N"
    by (simp add: drop_bit_eq_div push_bit_eq_mult)
  then show ?thesis by (simp add: take_bit_eq_mod push_bit_eq_mult)
qed

text \<open>
  The string that \<open>Encode\<close> builds: the digits, in base 32, of the number that the
  bytes write in base 256, shifted left to a whole number of digits.
\<close>

lemma Encode_str_digits:
  assumes "bs \<noteq> []"
  shows "Encode_str bs =
    map (\<lambda>v. Digit (of_nat v))
      (be_digits 32 ((8 * length bs + 4) div 5)
        (be_val 256 (map unat bs) * 2 ^ (5 * ((8 * length bs + 4) div 5) - 8 * length bs)))"
proof -
  define N where "N = be_val 256 (map unat bs)"
  from encode_loop_run [where u = 0 and tmp = 0 and V = 0 and k = 0 and bs = bs]
  obtain tmp' u' k' where
    loop: "encode_loop bs 0 (- 5) [] = (tmp', int u' - 5, map (\<lambda>v. Digit (of_nat v)) (be_digits 32 k' (drop_bit u' N)))"
    and u': "u' \<le> 5" "0 < u'"
    and win: "take_bit u' (unat tmp') = take_bit u' N"
    and cnt: "5 * k' + u' = 8 * length bs"
    using assms by (auto simp: N_def)
  have K: "(8 * length bs + 4) div 5 = Suc k'"
    using cnt u' by (simp add: cnt [symmetric])
  have P: "5 * Suc k' - 8 * length bs = 5 - u'"
    using cnt u' by (simp add: cnt [symmetric])
  have sh: "nat \<bar>int u' - 5\<bar> = 5 - u'"
    using u' by simp
  have "Encode_str bs = map (\<lambda>v. Digit (of_nat v)) (be_digits 32 k' (drop_bit u' N))
      @ [Digit (of_nat (take_bit 5 (push_bit (5 - u') N)))]"
    by (simp add: Encode_str_def DigitBits_def loop sh last_digit_extract last_digit_window [OF u'(1) win])
  also have "\<dots> = map (\<lambda>v. Digit (of_nat v)) (be_digits 32 (Suc k') (N * 2 ^ (5 - u')))"
    by (simp only: be_digits_Suc_push [OF u'(1), symmetric] map_append list.map)
  finally show ?thesis by (simp only: K P N_def)
qed

section \<open>The loop of Decode\<close>

lemma take_bit_digit_append:
  "v < 32 \<Longrightarrow> take_bit (u + 5) (y * 32 + v) = take_bit u y * 32 + (v :: nat)"
proof -
  assume v: "v < 32"
  have "(y * 32 + v) mod (32 * 2 ^ u) = 32 * ((y * 32 + v) div 32 mod 2 ^ u) + (y * 32 + v) mod 32"
    by (rule mod_mult2_eq)
  with v show ?thesis by (simp add: take_bit_eq_mod power_add mult.commute)
qed

lemma drop_bit_digit_append: "v < 32 \<Longrightarrow> drop_bit (u + 5) (V * 32 + v) = drop_bit u (V :: nat)"
proof -
  assume v: "v < 32"
  have "(V * 32 + v) div (32 * 2 ^ u) = (V * 32 + v) div 32 div 2 ^ u"
    by (rule div_mult2_eq)
  with v show ?thesis by (simp add: drop_bit_eq_div power_add mult.commute)
qed

lemma decode_window:
  assumes "v < 32" "u \<le> 11" "take_bit u x = take_bit u (V :: nat)"
  shows "take_bit (u + 5) (take_bit 16 (push_bit 5 x) + v) = take_bit (u + 5) (V * 32 + v)"
proof -
  have "take_bit 16 (push_bit 5 x) = push_bit 5 (take_bit (16 - 5) x)"
    by (rule take_bit_push_bit)
  then have "take_bit 16 (push_bit 5 x) = take_bit 11 x * 32"
    by (simp add: push_bit_eq_mult)
  moreover have "take_bit u (take_bit 11 x) = take_bit u x"
    using assms(2) by (simp add: min_def)
  ultimately show ?thesis
    using assms(1,3) by (simp add: take_bit_digit_append)
qed

lemma byte_window:
  "take_bit (s + 8) a = take_bit (s + 8) (b :: nat) \<Longrightarrow> take_bit 8 (drop_bit s a) = take_bit 8 (drop_bit s b)"
  by (simp add: take_bit_drop_bit add.commute)

lemma be_digits_Suc_drop_byte:
  "be_digits 256 m (drop_bit (s + 8) N) @ [take_bit 8 (drop_bit s N)] = be_digits 256 (Suc m) (drop_bit s N)"
  by (simp add: drop_bit_eq_div take_bit_eq_mod power_add div_mult2_eq)

text \<open>
  The \<open>for\<close> loop of \<open>Decode\<close>. Between two digits \<open>shift = u < 8\<close> is the number of
  bits read and not yet written; the low \<open>u\<close> bits of \<open>tmp\<close> are those bits, and \<open>out\<close>
  holds the bytes of all the bits above them. Each digit contributes the low five bits
  of its value.
\<close>

lemma decode_loop_run:
  "u < 8 \<Longrightarrow> take_bit u (unat tmp) = take_bit u V \<Longrightarrow>
    \<exists>tmp' u' m'.
      decode_loop cs tmp (int u) (map of_nat (be_digits 256 m (drop_bit u V)))
        = (tmp', int u',
           map of_nat (be_digits 256 m'
             (drop_bit u' (V * 32 ^ length cs + be_val 32 (map (\<lambda>c. take_bit 5 (unat (Value c))) cs)))))
      \<and> u' < 8
      \<and> take_bit u' (unat tmp')
          = take_bit u' (V * 32 ^ length cs + be_val 32 (map (\<lambda>c. take_bit 5 (unat (Value c))) cs))
      \<and> 8 * m' + u' = 8 * m + u + 5 * length cs"
proof (induction cs arbitrary: tmp u m V)
  case Nil
  then show ?case by (simp add: be_val_Nil)
next
  case (Cons c cs)
  define v where "v = take_bit 5 (unat (Value c))"
  define tmp3 :: uint16_t where "tmp3 = (push_bit 5 tmp AND NOT Mask) OR (Mask AND scast (Value c))"
  define V1 where "V1 = V * 32 + v"
  define u1 where "u1 = (if 8 \<le> u + 5 then u - 3 else u + 5)"
  define m1 where "m1 = (if 8 \<le> u + 5 then Suc m else m)"
  have v: "v < 32"
    using take_bit_nat_less_exp [of 5 "unat (Value c)"] by (simp add: v_def)
  have tmp3: "unat tmp3 = take_bit 16 (push_bit 5 (unat tmp)) + v"
    unfolding tmp3_def v_def by (rule decode_tmp)
  have win5: "take_bit (u + 5) (unat tmp3) = take_bit (u + 5) V1"
    using decode_window [OF v _ Cons.prems(2)] Cons.prems(1) by (simp add: tmp3 V1_def)
  have dr: "drop_bit (u + 5) V1 = drop_bit u V"
    using drop_bit_digit_append [OF v] by (simp add: V1_def)
  have u1: "u1 < 8" using Cons.prems(1) unfolding u1_def by arith
  have win1: "take_bit u1 (unat tmp3) = take_bit u1 V1"
  proof (rule take_bit_window [OF win5])
    show "u1 \<le> u + 5" unfolding u1_def by arith
  qed
  have count: "8 * m1 + u1 = 8 * m + u + 5"
    unfolding m1_def u1_def by arith
  have unfold: "decode_loop (c # cs) tmp (int u) (map of_nat (be_digits 256 m (drop_bit u V)))
      = decode_loop cs tmp3 (int u1) (map of_nat (be_digits 256 m1 (drop_bit u1 V1)))"
  proof (cases "8 \<le> u + 5")
    case True
    then have s: "u - 3 + 8 = u + 5" by simp
    have "take_bit 8 (drop_bit (u - 3) (unat tmp3)) = take_bit 8 (drop_bit (u - 3) V1)"
      using win5 by (intro byte_window) (simp only: s)
    moreover have eq: "be_digits 256 (Suc m) (drop_bit (u - 3) V1)
        = be_digits 256 m (drop_bit u V) @ [take_bit 8 (drop_bit (u - 3) V1)]"
      using be_digits_Suc_drop_byte [of m "u - 3" V1] by (simp only: s dr)
    have "map of_nat (be_digits 256 m (drop_bit u V)) @ [of_nat (take_bit 8 (drop_bit (u - 3) V1))]
        = (map of_nat (be_digits 256 (Suc m) (drop_bit (u - 3) V1)) :: uint8_t list)"
      by (simp only: eq map_append list.map)
    moreover note this
    moreover have "nat (int u + 5 - 8) = u - 3" "int u + 5 - 8 = int (u - 3)"
      using True by simp_all
    ultimately show ?thesis
      using True
      apply (simp only: decode_loop.simps Let_def DigitBits_def CharBits_def byte_extract nat_numeral
          tmp3_def [symmetric])
      apply (simp add: u1_def m1_def del: be_digits.simps)
      done
  next
    case False
    then show ?thesis
      apply (simp only: decode_loop.simps Let_def DigitBits_def CharBits_def byte_extract nat_numeral
          tmp3_def [symmetric])
      apply (simp add: u1_def m1_def dr)
      done
  qed
  have V': "V1 * 32 ^ length cs + be_val 32 (map (\<lambda>c. take_bit 5 (unat (Value c))) cs)
      = V * 32 ^ length (c # cs) + be_val 32 (map (\<lambda>c. take_bit 5 (unat (Value c))) (c # cs))"
    by (simp add: V1_def v_def be_val_Cons algebra_simps)
  from Cons.IH [OF u1 win1, of m1]
  obtain tmp' u' m' where
    res: "decode_loop cs tmp3 (int u1) (map of_nat (be_digits 256 m1 (drop_bit u1 V1)))
        = (tmp', int u',
           map of_nat (be_digits 256 m'
             (drop_bit u' (V1 * 32 ^ length cs + be_val 32 (map (\<lambda>c. take_bit 5 (unat (Value c))) cs)))))"
    and u': "u' < 8"
    and win': "take_bit u' (unat tmp')
          = take_bit u' (V1 * 32 ^ length cs + be_val 32 (map (\<lambda>c. take_bit 5 (unat (Value c))) cs))"
    and cnt': "8 * m' + u' = 8 * m1 + u1 + 5 * length cs"
    by blast
  have cnt: "8 * m' + u' = 8 * m + u + 5 * length (c # cs)"
    using cnt' count by simp
  show ?case
    unfolding unfold V' [symmetric]
    using res u' win' cnt by blast
qed

text \<open>The state of \<open>Decode\<close> after its loop.\<close>

lemma decode_loop_result:
  "\<exists>tmp'.
    decode_loop cs 0 0 []
      = (tmp', int (5 * length cs mod 8),
         map of_nat (be_digits 256 (5 * length cs div 8)
           (drop_bit (5 * length cs mod 8) (be_val 32 (map (\<lambda>c. take_bit 5 (unat (Value c))) cs)))))
    \<and> take_bit (5 * length cs mod 8) (unat tmp')
        = take_bit (5 * length cs mod 8) (be_val 32 (map (\<lambda>c. take_bit 5 (unat (Value c))) cs))"
proof -
  define W where "W = be_val 32 (map (\<lambda>c. take_bit 5 (unat (Value c))) cs)"
  from decode_loop_run [where u = 0 and tmp = 0 and V = 0 and m = 0 and cs = cs]
  obtain tmp' u' m' where
    loop: "decode_loop cs 0 0 [] = (tmp', int u', map of_nat (be_digits 256 m' (drop_bit u' W)))"
    and u': "u' < 8"
    and win: "take_bit u' (unat tmp') = take_bit u' W"
    and cnt: "8 * m' + u' = 5 * length cs"
    by (auto simp: W_def)
  have "5 * length cs mod 8 = u'" "5 * length cs div 8 = m'"
    using u' by (simp_all add: cnt [symmetric])
  then show ?thesis
    using loop win by (simp add: W_def)
qed

lemma last_byte_window:
  "u \<le> 8 \<Longrightarrow> take_bit u x = take_bit u (N :: nat) \<Longrightarrow>
    take_bit 8 (push_bit (8 - u) x) = take_bit 8 (push_bit (8 - u) N)"
  by (simp add: take_bit_push_bit)

lemma be_digits_Suc_push_byte:
  "u \<le> 8 \<Longrightarrow>
    be_digits 256 k (drop_bit u N) @ [take_bit 8 (push_bit (8 - u) N)]
      = be_digits 256 (Suc k) (N * 2 ^ (8 - u))"
proof -
  assume u: "u \<le> 8"
  have "drop_bit 8 (push_bit (8 - u) N) = drop_bit u N"
    using u by (simp add: drop_bit_push_bit)
  then have "N * 2 ^ (8 - u) div 256 = drop_bit u N"
    by (simp add: drop_bit_eq_div push_bit_eq_mult)
  then show ?thesis by (simp add: take_bit_eq_mod push_bit_eq_mult)
qed

lemma ceil8: "(5 * n + 7) div 8 = 5 * n div 8 + (if 5 * n mod 8 = 0 then 0 else (1::nat))"
proof -
  define m u where "m = 5 * n div 8" and "u = 5 * n mod 8"
  have n: "5 * n = 8 * m + u" and u: "u < 8" by (simp_all add: m_def u_def)
  have "(8 * m + u + 7) div 8 = m + (u + 7) div 8" by simp
  moreover have "(u + 7) div 8 = (if u = 0 then 0 else 1)"
  proof (cases u)
    case 0
    then show ?thesis by simp
  next
    case (Suc v)
    then have "u + 7 = v + 8" "v < 8" using u by simp_all
    then show ?thesis using Suc by simp
  qed
  ultimately have "(5 * n + 7) div 8 = m + (if u = 0 then 0 else 1)"
    by (simp only: n)
  then show ?thesis by (simp only: m_def u_def)
qed

text \<open>
  The bytes that \<open>Decode\<close> writes: the digits, in base 256, of the number that the
  digit values write in base 32, shifted left to a whole number of bytes.
\<close>

lemma Decode_bytes:
  "Decode c =
    map of_nat
      (be_digits 256 ((5 * Size c + 7) div 8)
        (be_val 32 (map (\<lambda>c. take_bit 5 (unat (Value c))) (Str c))
          * 2 ^ (8 * ((5 * Size c + 7) div 8) - 5 * Size c)))"
proof -
  define n where "n = length (Str c)"
  define W where "W = be_val 32 (map (\<lambda>c. take_bit 5 (unat (Value c))) (Str c))"
  define u m where "u = 5 * n mod 8" and "m = 5 * n div 8"
  from decode_loop_result [of "Str c"]
  obtain tmp' where
    loop: "decode_loop (Str c) 0 0 [] = (tmp', int u, map of_nat (be_digits 256 m (drop_bit u W)))"
    and win: "take_bit u (unat tmp') = take_bit u W"
    by (auto simp: n_def W_def u_def m_def)
  have n: "5 * n = 8 * m + u" and u: "u < 8" by (simp_all add: m_def u_def)
  show ?thesis
  proof (cases "u = 0")
    case True
    then have "(5 * n + 7) div 8 = m" using ceil8 [of n] by (simp add: u_def m_def)
    moreover have "8 * m - 5 * n = 0" using n True by simp
    moreover have "Decode c = map of_nat (be_digits 256 m W)"
      using True by (simp add: Decode_def loop)
    ultimately show ?thesis by (simp add: Size_def n_def [symmetric] W_def [symmetric])
  next
    case False
    then have M: "(5 * n + 7) div 8 = Suc m" using ceil8 [of n] by (simp add: u_def m_def)
    have Q: "8 * Suc m - 5 * n = 8 - u" using n u by simp
    have u8: "u \<le> 8" using u by simp
    have sh: "nat (8 - int u) = 8 - u" using u by simp
    have "Decode c = map of_nat (be_digits 256 m (drop_bit u W))
        @ [of_nat (take_bit 8 (push_bit (8 - u) W))]"
      using False
      by (simp add: Decode_def loop CharBits_def sh last_byte_extract last_byte_window [OF u8 win])
    also have "\<dots> = map of_nat (be_digits 256 (Suc m) (W * 2 ^ (8 - u)))"
      by (simp only: be_digits_Suc_push_byte [OF u8, symmetric] map_append list.map)
    finally show ?thesis
      by (simp only: Size_def n_def [symmetric] W_def [symmetric] M Q)
  qed
qed

lemma length_Decode: "length (Decode c) = (5 * Size c + 7) div 8"
  by (simp only: Decode_bytes length_map length_be_digits)

section \<open>Round trips\<close>

lemma dig_in_Digits: "d \<in> set (be_digits 32 k n) \<Longrightarrow> Digit (of_nat d) \<in> set Digits"
  using be_digits_less [of 32 d k n] by (simp add: Digit_in_Digits)

text \<open>What \<open>Encode\<close> returns, for every input.\<close>

lemma Encode_eq:
  "Encode bs = Inr \<lparr>Str = map (\<lambda>v. Digit (of_nat v))
      (be_digits 32 ((8 * length bs + 4) div 5)
        (be_val 256 (map unat bs) * 2 ^ (5 * ((8 * length bs + 4) div 5) - 8 * length bs)))\<rparr>"
proof (cases "bs = []")
  case True
  then show ?thesis by (simp add: Encode_def Base32Code_def)
next
  case False
  have "set (Encode_str bs) \<subseteq> set Digits"
    unfolding Encode_str_digits [OF False] using dig_in_Digits by auto
  then have "Base32Code (Encode_str bs) = Inr \<lparr>Str = Encode_str bs\<rparr>"
    by (rule Base32Code_canonical)
  then show ?thesis using False by (simp only: Encode_def if_False Encode_str_digits [OF False])
qed

lemma values_of_digits:
  "map (\<lambda>c. take_bit 5 (unat (Value c))) (map (\<lambda>v. Digit (of_nat v)) (be_digits 32 k n)) = be_digits 32 k n"
proof -
  have "take_bit 5 (unat (Value (Digit (of_nat d)))) = d" if "d \<in> set (be_digits 32 k n)" for d
  proof -
    have d: "d < 32" using be_digits_less [of 32 d k n] that by simp
    then have "unat (Value (Digit (of_nat d))) = d" by (simp add: Value_Digit unat_of_nat)
    with d show ?thesis by (simp add: take_bit_nat_eq_self)
  qed
  then show ?thesis by (simp add: map_idI)
qed

lemma bytes_of_digits:
  "map unat (map of_nat (be_digits 256 k n) :: uint8_t list) = be_digits 256 k n"
proof -
  have "unat (of_nat d :: uint8_t) = d" if "d \<in> set (be_digits 256 k n)" for d
    using be_digits_less [of 256 d k n] that by (simp add: unat_of_nat)
  then show ?thesis by (simp add: map_idI)
qed

lemma be_val_bytes_less: "be_val 256 (map unat (bs :: uint8_t list)) < 256 ^ length bs"
proof -
  have "unat b < 256" for b :: uint8_t
    using unsigned_less [of b] by simp
  then have "\<forall>d \<in> set (map unat bs). d < 256"
    by auto
  from be_val_less [OF this] show ?thesis by simp
qed

lemma be_digits_bytes: "map of_nat (be_digits 256 (length bs) (be_val 256 (map unat bs))) = (bs :: uint8_t list)"
proof -
  have "unat b < 256" for b :: uint8_t
    using unsigned_less [of b] by simp
  then have "\<forall>d \<in> set (map unat bs). d < 256"
    by auto
  from be_digits_be_val [OF this] show ?thesis by (simp add: map_idI)
qed

lemma pow32: "32 ^ k = (2::nat) ^ (5 * k)"
  by (simp add: power_mult)

lemma pow256: "256 ^ k = (2::nat) ^ (8 * k)"
  by (simp add: power_mult)

lemma ceil5: "(8 * l + 4) div 5 = 8 * l div 5 + (if 8 * l mod 5 = 0 then 0 else (1::nat))"
proof -
  define q r where "q = 8 * l div 5" and "r = 8 * l mod 5"
  have l: "8 * l = 5 * q + r" and r: "r < 5" by (simp_all add: q_def r_def)
  have "(5 * q + r + 4) div 5 = q + (r + 4) div 5" by simp
  moreover have "(r + 4) div 5 = (if r = 0 then 0 else 1)"
  proof (cases r)
    case 0
    then show ?thesis by simp
  next
    case (Suc v)
    then have "r + 4 = v + 5" "v < 5" using r by simp_all
    then show ?thesis using Suc by simp
  qed
  ultimately have "(8 * l + 4) div 5 = q + (if r = 0 then 0 else 1)"
    by (simp only: l)
  then show ?thesis by (simp only: q_def r_def)
qed

text \<open>The number of digits of an encoding, and the number of bytes of its decoding.\<close>

lemma digits_cover_bytes: "8 * l \<le> 5 * ((8 * l + 4) div 5)" for l :: nat
proof -
  have "8 * l = 5 * (8 * l div 5) + 8 * l mod 5" by simp
  moreover have "8 * l mod 5 < 5" by simp
  ultimately show ?thesis unfolding ceil5 by (auto split: if_splits)
qed

lemma bytes_cover_digits: "5 * n \<le> 8 * ((5 * n + 7) div 8)" for n :: nat
proof -
  have "5 * n = 8 * (5 * n div 8) + 5 * n mod 8" by simp
  moreover have "5 * n mod 8 < 8" by simp
  ultimately show ?thesis unfolding ceil8 by (auto split: if_splits)
qed

lemma bytes_of_encoding:
  "(5 * ((8 * l + 4) div 5) + 7) div 8 = l + (if 8 * l mod 5 = 0 then 0 else (1::nat))"
proof -
  define q r where "q = 8 * l div 5" and "r = 8 * l mod 5"
  have l: "8 * l = 5 * q + r" and r: "r < 5" by (simp_all add: q_def r_def)
  show ?thesis
  proof (cases "r = 0")
    case True
    then have "(8 * l + 4) div 5 = q" unfolding ceil5 by (simp add: r_def q_def)
    moreover have "5 * q = 8 * l" using l True by simp
    ultimately show ?thesis using True by (simp add: r_def)
  next
    case False
    then have K: "(8 * l + 4) div 5 = Suc q" unfolding ceil5 by (simp add: r_def q_def)
    have "5 * Suc q + 7 = 8 * (l + 1) + (4 - r)" using l r False by simp
    moreover have "(8 * (l + 1) + (4 - r)) div 8 = l + 1" by simp
    ultimately have "(5 * Suc q + 7) div 8 = l + 1" by (simp only:)
    then show ?thesis using False by (simp add: K r_def)
  qed
qed

text \<open>Decoding an encoding gives the bytes back, with a zero byte after them when
  the bits of the bytes are not a whole number of digits.\<close>

lemma Decode_of_Encode:
  assumes "Encode bs = Inr c"
  shows "Decode c = bs @ (if 8 * length bs mod 5 = 0 then [] else [0])"
proof -
  define l where "l = length bs"
  define N where "N = be_val 256 (map unat bs)"
  define K where "K = (8 * l + 4) div 5"
  define P where "P = 5 * K - 8 * l"
  define M where "M = (5 * K + 7) div 8"
  define Q where "Q = 8 * M - 5 * K"
  have c: "c = \<lparr>Str = map (\<lambda>v. Digit (of_nat v)) (be_digits 32 K (N * 2 ^ P))\<rparr>"
    using assms unfolding Encode_eq by (simp add: l_def N_def K_def P_def)
  have size: "Size c = K" by (simp add: c Size_def length_be_digits)
  have KP: "8 * l + P = 5 * K" using digits_cover_bytes [of l] by (simp add: P_def K_def)
  have MQ: "5 * K + Q = 8 * M" using bytes_cover_digits [of K] by (simp add: Q_def M_def)
  have M: "M = l + (if 8 * l mod 5 = 0 then 0 else 1)"
    unfolding M_def K_def by (rule bytes_of_encoding)
  have "N < 2 ^ (8 * l)"
    using be_val_bytes_less [of bs] by (simp add: N_def l_def pow256)
  then have "N * 2 ^ P < 2 ^ (8 * l) * 2 ^ P" by simp
  then have bound: "N * 2 ^ P < 32 ^ K" by (simp add: pow32 power_add [symmetric] KP)
  have W: "be_val 32 (map (\<lambda>c. take_bit 5 (unat (Value c))) (Str c)) = N * 2 ^ P"
    by (simp only: c Base32Code.simps values_of_digits be_val_be_digits [OF bound])
  have "P + Q = 8 * (M - l)" using KP MQ by simp
  then have shift: "N * 2 ^ P * 2 ^ Q = N * 256 ^ (M - l)"
    by (simp add: pow256 power_add [symmetric] mult.assoc)
  have Ml: "l + (M - l) = M" using M by simp
  have "Decode c = map of_nat (be_digits 256 M (N * 2 ^ P * 2 ^ Q))"
    by (simp only: Decode_bytes W size M_def [symmetric] Q_def [symmetric])
  also have "\<dots> = map of_nat (be_digits 256 (l + (M - l)) (N * 256 ^ (M - l)))"
    by (simp only: shift Ml)
  also have "\<dots> = map of_nat (be_digits 256 l N) @ replicate (M - l) 0"
    by (simp add: be_digits_shift)
  also have "map of_nat (be_digits 256 l N) = bs"
    unfolding l_def N_def by (rule be_digits_bytes)
  finally show ?thesis using M by (simp add: l_def)
qed

lemma canonical_values:
  "set S \<subseteq> set Digits \<Longrightarrow>
    map (\<lambda>c. take_bit 5 (unat (Value c))) S = map (\<lambda>c. unat (Value c)) S"
  by (simp add: subsetD Value_less take_bit_nat_eq_self)

lemma digits_of_values:
  "set S \<subseteq> set Digits \<Longrightarrow> map (\<lambda>v. Digit (of_nat v)) (map (\<lambda>c. unat (Value c)) S) = S"
  by (simp add: subsetD Digit_Value map_idI)

lemma Digit_0: "Digit 0 = CHR ''0''"
  by (simp add: Digit_def Digits_def)

lemma padding_digits_ge: "n \<le> (8 * ((5 * n + 7) div 8) + 4) div 5" for n :: nat
  using digits_cover_bytes [of "(5 * n + 7) div 8"] bytes_cover_digits [of n] by simp

lemma padding_digits_zero:
  "(8 * ((5 * n + 7) div 8) + 4) div 5 - n = 0 \<longleftrightarrow> 5 * n mod 8 = 0" for n :: nat
proof
  assume "(8 * ((5 * n + 7) div 8) + 4) div 5 - n = 0"
  then have "(8 * ((5 * n + 7) div 8) + 4) div 5 = n"
    using padding_digits_ge [of n] by simp
  then have "8 * ((5 * n + 7) div 8) \<le> 5 * n"
    using digits_cover_bytes [of "(5 * n + 7) div 8"] by simp
  then have "5 * n = 8 * ((5 * n + 7) div 8)"
    using bytes_cover_digits [of n] by simp
  then show "5 * n mod 8 = 0" by (metis mod_mult_self1_is_0)
next
  assume z: "5 * n mod 8 = 0"
  then have "8 * ((5 * n + 7) div 8) = 5 * n" unfolding ceil8 by auto
  then show "(8 * ((5 * n + 7) div 8) + 4) div 5 - n = 0" by simp
qed

text \<open>
  Encoding the bytes of a code of canonical digits gives the digits back, followed by
  as many zero digits as the whole bytes hold more than the digits.
\<close>

lemma Encode_of_Decode:
  assumes canon: "set (Str c) \<subseteq> set Digits"
  shows "Encode (Decode c) =
    Inr \<lparr>Str = Str c @ replicate ((8 * ((5 * Size c + 7) div 8) + 4) div 5 - Size c) CHR ''0''\<rparr>"
proof -
  define n where "n = Size c"
  define vals where "vals = map (\<lambda>c. unat (Value c)) (Str c)"
  define W where "W = be_val 32 vals"
  define M where "M = (5 * n + 7) div 8"
  define Q where "Q = 8 * M - 5 * n"
  define K where "K = (8 * M + 4) div 5"
  define P where "P = 5 * K - 8 * M"
  have len: "length vals = n" by (simp add: vals_def n_def Size_def)
  have small: "\<forall>d \<in> set vals. d < 32"
    using canon by (auto simp: vals_def Value_less)
  have MQ: "5 * n + Q = 8 * M" using bytes_cover_digits [of n] by (simp add: Q_def M_def)
  have KP: "8 * M + P = 5 * K" using digits_cover_bytes [of M] by (simp add: P_def K_def)
  have nK: "n + (K - n) = K" using padding_digits_ge [of n] by (simp add: K_def M_def)
  have dec: "Decode c = map of_nat (be_digits 256 M (W * 2 ^ Q))"
    by (simp only: Decode_bytes canonical_values [OF canon] n_def [symmetric] M_def [symmetric]
        Q_def [symmetric] vals_def [symmetric] W_def [symmetric])
  have lenD: "length (Decode c) = M" by (simp add: dec length_be_digits)
  have "W < 2 ^ (5 * n)"
    using be_val_less [OF small] by (simp add: W_def len pow32)
  then have "W * 2 ^ Q < 2 ^ (5 * n) * 2 ^ Q" by simp
  then have bound: "W * 2 ^ Q < 256 ^ M" by (simp add: pow256 power_add [symmetric] MQ)
  have N: "be_val 256 (map unat (Decode c)) = W * 2 ^ Q"
    by (simp only: dec bytes_of_digits be_val_be_digits [OF bound])
  have "Q + P = 5 * (K - n)" using KP MQ by simp
  then have shift: "W * 2 ^ Q * 2 ^ P = W * 32 ^ (K - n)"
    by (simp add: pow32 power_add [symmetric] mult.assoc)
  have "Encode (Decode c) = Inr \<lparr>Str = map (\<lambda>v. Digit (of_nat v)) (be_digits 32 K (W * 2 ^ Q * 2 ^ P))\<rparr>"
    by (simp only: Encode_eq lenD N K_def [symmetric] P_def [symmetric])
  also have "be_digits 32 K (W * 2 ^ Q * 2 ^ P) = be_digits 32 (n + (K - n)) (W * 32 ^ (K - n))"
    by (simp only: shift nK)
  also have "\<dots> = be_digits 32 n W @ replicate (K - n) 0"
    by (simp add: be_digits_shift)
  also have "be_digits 32 n W = vals"
    using be_digits_be_val [OF small] by (simp add: W_def len)
  also have "map (\<lambda>v. Digit (of_nat v)) (vals @ replicate (K - n) 0)
      = Str c @ replicate (K - n) CHR ''0''"
    by (simp add: vals_def digits_of_values [OF canon] Digit_0 del: map_map)
  finally show ?thesis by (simp only: K_def M_def n_def)
qed

section \<open>The bit sequence of the specification\<close>

lemma group_value_be_val: "group_value g = be_val 2 (map of_bool g)"
  by (simp add: group_value_def be_val_def foldl_map)

lemma group_value_append: "group_value (xs @ ys) = group_value xs * 2 ^ length ys + group_value ys"
  by (simp add: group_value_be_val be_val_append)

lemma group_value_less: "group_value g < 2 ^ length g"
  using be_val_less [of "map of_bool g" 2] by (auto simp: group_value_be_val)

lemma group_value_zeros: "group_value (replicate j False) = 0"
proof (induction j)
  case 0
  then show ?case by (simp add: group_value_def)
next
  case (Suc j)
  have "replicate (Suc j) False = replicate j False @ [False]"
    by (simp add: replicate_append_same)
  moreover have "group_value [False] = 0" by (simp add: group_value_def)
  ultimately show ?case using Suc by (simp add: group_value_append)
qed

lemma group_value_pad: "group_value (g @ replicate j False) = group_value g * 2 ^ j"
  by (simp add: group_value_append group_value_zeros)

lemma group_value_byte_bits: "group_value (byte_bits b) = unat b"
proof -
  have "horner_sum of_bool 2 (map (bit (unat b)) [0..<8]) = take_bit 8 (unat b)"
    by (rule horner_sum_bit_eq_take_bit)
  moreover have "unat b < 256"
    using unsigned_less [of b] by simp
  then have "take_bit 8 (unat b) = unat b"
    by (simp add: take_bit_nat_eq_self)
  moreover have "[0..<8] = [0, 1, 2, 3, 4, 5, 6, 7 :: nat]"
    by (simp add: upt_rec)
  ultimately have "unat b = horner_sum of_bool 2 (map (bit (unat b)) [0, 1, 2, 3, 4, 5, 6, 7])"
    by simp
  then show ?thesis
    by (simp add: group_value_def byte_bits_def bit_unsigned_iff)
qed

lemma length_byte_bits: "length (byte_bits b) = 8"
  by (simp add: byte_bits_def)

lemma length_bit_sequence: "length (bit_sequence bs) = 8 * length bs"
  by (induction bs) (simp_all add: bit_sequence_def length_byte_bits)

lemma group_value_bit_sequence: "group_value (bit_sequence bs) = be_val 256 (map unat bs)"
proof (induction bs)
  case Nil
  then show ?case by (simp add: bit_sequence_def group_value_def be_val_Nil)
next
  case (Cons b bs)
  have "bit_sequence (b # bs) = byte_bits b @ bit_sequence bs"
    by (simp add: bit_sequence_def)
  then show ?case
    using Cons
    by (simp add: group_value_append group_value_byte_bits length_bit_sequence be_val_Cons pow256)
qed

text \<open>The groups of five bits are the digits in base 32 of the padded bit sequence.\<close>

lemma groups5_digits:
  "map group_value (groups5 xs)
    = be_digits 32 ((length xs + 4) div 5)
        (group_value xs * 2 ^ (5 * ((length xs + 4) div 5) - length xs))"
proof (induction xs rule: groups5.induct)
  case 1
  then show ?case by simp
next
  case (2 x xs)
  define ys where "ys = x # xs"
  define n where "n = length ys"
  have n: "0 < n" by (simp add: n_def ys_def)
  show ?case
  proof (cases "n \<le> 5")
    case True
    then have K: "(n + 4) div 5 = 1"
    proof -
      obtain j where "n = Suc j" using n by (cases n) auto
      then have "n + 4 = j + 5" "j < 5" using True by simp_all
      then show ?thesis by simp
    qed
    have "groups5 ys = [ys @ replicate (5 - n) False]"
      using True by (simp add: ys_def n_def)
    then have "map group_value (groups5 ys) = [group_value ys * 2 ^ (5 - n)]"
      by (simp add: group_value_pad)
    moreover have "group_value ys * 2 ^ (5 - n) < 32"
    proof -
      have "group_value ys * 2 ^ (5 - n) < 2 ^ n * 2 ^ (5 - n)"
        using group_value_less [of ys] by (simp add: n_def)
      also have "\<dots> = 2 ^ 5" using True by (simp add: power_add [symmetric])
      finally show ?thesis by simp
    qed
    ultimately show ?thesis
      by (simp add: K ys_def [symmetric] n_def [symmetric])
  next
    case False
    define g where "g = take 5 ys"
    define rest where "rest = drop 5 ys"
    define K' where "K' = (length rest + 4) div 5"
    define P where "P = 5 * K' - length rest"
    have lg: "length g = 5" using False by (simp add: g_def n_def)
    have lr: "length rest = n - 5" by (simp add: rest_def n_def)
    have ys: "ys = g @ rest" by (simp add: g_def rest_def)
    have nr: "n = length rest + 5" using False lr by simp
    have K: "(n + 4) div 5 = Suc K'" by (simp add: nr K'_def)
    have cover: "length rest \<le> 5 * K'"
    proof -
      have "length rest + 4 = 5 * K' + (length rest + 4) mod 5" by (simp add: K'_def)
      moreover have "(length rest + 4) mod 5 < 5" by simp
      ultimately show ?thesis by linarith
    qed
    then have P': "5 * Suc K' - n = P" "length rest + P = 5 * K'"
      by (simp_all add: P_def nr)
    have IH: "map group_value (groups5 rest) = be_digits 32 K' (group_value rest * 2 ^ P)"
      using "2.IH" [of g] by (simp add: g_def ys_def rest_def K'_def P_def)
    have R: "group_value rest * 2 ^ P < 32 ^ K'"
    proof -
      have "group_value rest * 2 ^ P < 2 ^ length rest * 2 ^ P"
        using group_value_less [of rest] by simp
      then show ?thesis by (simp add: power_add [symmetric] P' pow32)
    qed
    have a: "group_value g < 32" using group_value_less [of g] by (simp add: lg)
    have "group_value ys * 2 ^ P = group_value g * 32 ^ K' + group_value rest * 2 ^ P"
    proof -
      have "group_value ys * 2 ^ P = group_value g * (2 ^ length rest * 2 ^ P) + group_value rest * 2 ^ P"
        by (simp add: ys group_value_append algebra_simps)
      then show ?thesis by (simp add: power_add [symmetric] P' pow32)
    qed
    then have "be_digits 32 (Suc K') (group_value ys * 2 ^ P)
        = group_value g # be_digits 32 K' (group_value rest * 2 ^ P)"
      using be_digits_head [OF R, of "group_value g"] a by simp
    moreover have "groups5 ys = g # groups5 rest"
      using lg by (simp add: ys_def g_def rest_def)
    ultimately show ?thesis
      by (simp only: ys_def [symmetric] n_def [symmetric] K P' IH list.map)
  qed
qed

text \<open>The string of the specification is the string that \<open>Encode\<close> returns.\<close>

lemma Encode_spec_digits:
  "Encode_spec bs =
    map (\<lambda>v. Digit (of_nat v))
      (be_digits 32 ((8 * length bs + 4) div 5)
        (be_val 256 (map unat bs) * 2 ^ (5 * ((8 * length bs + 4) div 5) - 8 * length bs)))"
proof -
  have "Encode_spec bs = map (\<lambda>v. Digit (of_nat v)) (map group_value (groups5 (bit_sequence bs)))"
    by (simp add: Encode_spec_def)
  then show ?thesis
    by (simp only: groups5_digits length_bit_sequence group_value_bit_sequence)
qed

section \<open>The decoded size\<close>

lemma std_div_nonneg: "0 \<le> x \<Longrightarrow> std_div x 8 = (x div 8, x mod 8)"
proof (cases "x = 0")
  case True
  then show ?thesis by (simp add: std_div_def)
next
  case False
  assume "0 \<le> x"
  with False have "sgn x = 1" "\<bar>x\<bar> = x" by simp_all
  moreover have "x - x div 8 * 8 = x mod 8"
    by (simp add: minus_div_mult_eq_mod)
  ultimately show ?thesis by (simp add: std_div_def Let_def)
qed

text \<open>
  Where the product \<open>digits * 5\<close> fits an \<open>int\<close>, \<open>DecodedSize\<close> is the number of
  digits times five over eight, rounded up.
\<close>

lemma DecodedSize_in_range:
  assumes "5 * n < 2 ^ 31"
  shows "DecodedSize (of_nat n) = Some (of_nat ((5 * n + 7) div 8))"
proof -
  have n: "n < 2 ^ 31" using assms by simp
  have "(ucast (of_nat n :: size_t) :: 32 word) = of_nat n"
    using n by (simp add: unsigned_of_nat take_bit_nat_eq_self)
  moreover have "sint (of_nat n :: 32 word) = int n"
    using n by (simp add: signed_of_nat signed_take_bit_int_eq_self)
  ultimately have d: "sint (ucast (of_nat n :: size_t) :: 32 word) = int n" by simp
  have prod: "\<not> (int n * 5 < - (2 ^ 31) \<or> 2 ^ 31 \<le> int n * 5)"
    using assms by (simp add: not_le)
  have dv: "std_div (int n * 5) 8 = (int n * 5 div 8, int n * 5 mod 8)"
    by (rule std_div_nonneg) simp
  have "int n * 5 div 8 + (if int n * 5 mod 8 \<noteq> 0 then 1 else 0) = int ((5 * n + 7) div 8)"
  proof -
    have "int n * 5 div 8 = int (5 * n div 8)" "int n * 5 mod 8 = int (5 * n mod 8)"
      by (simp_all add: zdiv_int zmod_int mult.commute)
    then show ?thesis unfolding ceil8 by simp
  qed
  then show ?thesis
    by (simp only: DecodedSize_def Let_def d DigitBits_def CharBits_def prod if_False dv
        case_prod_conv of_int_of_nat_eq)
qed

lemma Code_DecodedSize_in_range:
  "5 * Size c < 2 ^ 31 \<Longrightarrow> Code_DecodedSize c = Some (of_nat (length (Decode c)))"
  by (simp only: Code_DecodedSize_def DecodedSize_in_range length_Decode)

text \<open>The values that the test \<open>DecodedSize\<close> of the repository expects.\<close>

lemma DecodedSize_spot_values:
  "map DecodedSize [0, 1, 2, 3, 4, 5, 6, 7, 8, 9, 14, 15, 16, 17, 78, 79, 80, 81]
    = map Some [0, 1, 2, 2, 3, 4, 4, 5, 5, 6, 9, 10, 10, 11, 49, 50, 50, 51]"
  by (simp add: DecodedSize_def std_div_def DigitBits_def CharBits_def)

section \<open>Claims about digits, values and construction\<close>

lemma valid_chars_range:
  "\<forall>x \<in> set ''0oO1iIlL23456789ABCDEFGHJKMNPQRSTVWXYZabcdefghjkmnpqrstvwxyz''.
    48 \<le> (of_char x :: nat) \<and> (of_char x :: nat) \<le> 122"
  by simp

text \<open>
  C6. \<open>Canonical\<close> is a total function on all characters: \<open>0\<close>, \<open>o\<close>, \<open>O\<close> go to
  \<open>0\<close>; \<open>1\<close>, \<open>i\<close>, \<open>I\<close>, \<open>l\<close>, \<open>L\<close> go to \<open>1\<close>; every other character of the
  alphabet goes to itself; the lowercase form of each letter of the alphabet goes to the
  uppercase letter; every other character (such as \<open>U\<close> and \<open>u\<close>, and every character
  below \<open>0\<close> or above \<open>z\<close>, which covers the control characters and the characters that
  are not ASCII) goes to the sentinel \<open>InvalidDigit\<close>, the null character; and
  \<open>IsValid c\<close> holds exactly when \<open>Canonical c\<close> is not the sentinel.
\<close>

theorem Canonical_table:
  "(z \<in> set ''0oO'' \<longrightarrow> Canonical z = CHR ''0'') \<and>
   (e \<in> set ''1iIlL'' \<longrightarrow> Canonical e = CHR ''1'') \<and>
   (a \<in> set ''23456789ABCDEFGHJKMNPQRSTVWXYZ'' \<longrightarrow> Canonical a = a) \<and>
   map Canonical ''abcdefghjkmnpqrstvwxyz'' = ''ABCDEFGHJKMNPQRSTVWXYZ'' \<and>
   (x \<notin> set ''0oO1iIlL23456789ABCDEFGHJKMNPQRSTVWXYZabcdefghjkmnpqrstvwxyz''
      \<longrightarrow> Canonical x = InvalidDigit) \<and>
   Canonical CHR ''U'' = InvalidDigit \<and> Canonical CHR ''u'' = InvalidDigit \<and>
   ((of_char y :: nat) < 48 \<or> 122 < (of_char y :: nat) \<longrightarrow> Canonical y = InvalidDigit) \<and>
   InvalidDigit = CHR 0x00 \<and>
   (IsValid c \<longleftrightarrow> Canonical c \<noteq> InvalidDigit)"
proof -
  have zero: "z \<in> set ''0oO'' \<longrightarrow> Canonical z = CHR ''0''"
    using map_eq_on_set [OF Canonical_zero_aliases] by blast
  have one: "e \<in> set ''1iIlL'' \<longrightarrow> Canonical e = CHR ''1''"
    using map_eq_on_set [OF Canonical_one_aliases] by blast
  have upper: "a \<in> set ''23456789ABCDEFGHJKMNPQRSTVWXYZ'' \<longrightarrow> Canonical a = a"
    using map_eq_on_set [OF Canonical_upper] by blast
  have other: "x \<notin> set ''0oO1iIlL23456789ABCDEFGHJKMNPQRSTVWXYZabcdefghjkmnpqrstvwxyz''
      \<longrightarrow> Canonical x = InvalidDigit"
    using Canonical_other by blast
  have U: "Canonical CHR ''U'' = InvalidDigit" "Canonical CHR ''u'' = InvalidDigit"
    by (simp_all add: Canonical_def)
  have far: "(of_char y :: nat) < 48 \<or> 122 < (of_char y :: nat) \<longrightarrow> Canonical y = InvalidDigit"
  proof
    assume out: "(of_char y :: nat) < 48 \<or> 122 < (of_char y :: nat)"
    have "y \<notin> set ''0oO1iIlL23456789ABCDEFGHJKMNPQRSTVWXYZabcdefghjkmnpqrstvwxyz''"
    proof
      assume "y \<in> set ''0oO1iIlL23456789ABCDEFGHJKMNPQRSTVWXYZabcdefghjkmnpqrstvwxyz''"
      from valid_chars_range [rule_format, OF this] out show False by simp
    qed
    then show "Canonical y = InvalidDigit" by (rule Canonical_other)
  qed
  have inv: "InvalidDigit = CHR 0x00" by (simp add: InvalidDigit_def)
  have valid: "IsValid c \<longleftrightarrow> Canonical c \<noteq> InvalidDigit" by (simp add: IsValid_def)
  show ?thesis
    by (intro conjI zero one upper Canonical_lower other U far inv valid)
qed

theorem Canonical_table_witness:
  "CHR ''o'' \<in> set ''0oO'' \<and> Canonical CHR ''o'' = CHR ''0'' \<and>
   CHR ''L'' \<in> set ''1iIlL'' \<and> Canonical CHR ''L'' = CHR ''1'' \<and>
   CHR ''K'' \<in> set ''23456789ABCDEFGHJKMNPQRSTVWXYZ'' \<and> Canonical CHR ''K'' = CHR ''K'' \<and>
   CHR ''!'' \<notin> set ''0oO1iIlL23456789ABCDEFGHJKMNPQRSTVWXYZabcdefghjkmnpqrstvwxyz'' \<and>
   Canonical CHR ''!'' = InvalidDigit \<and>
   122 < (of_char (CHR 0xE9) :: nat) \<and> Canonical (CHR 0xE9) = InvalidDigit \<and>
   IsValid CHR ''k'' \<and> Canonical CHR ''k'' \<noteq> InvalidDigit"
  using Canonical_table [of "CHR ''o''" "CHR ''L''" "CHR ''K''" "CHR ''!''" "CHR 0xE9" "CHR ''k''"]
  by (simp add: Canonical_def toupper_def InvalidDigit_def char_of_eq_iff)

text \<open>
  C7. \<open>Canonical\<close> is idempotent on every character, and each tolerated alias goes to
  its documented canonical digit: \<open>o\<close>, \<open>O\<close> to \<open>0\<close>; \<open>i\<close>, \<open>I\<close>, \<open>l\<close>, \<open>L\<close> to \<open>1\<close>;
  each lowercase letter of the alphabet to its uppercase; and these targets are fixed
  points of \<open>Canonical\<close>.
\<close>

theorem Canonical_idempotent:
  "Canonical (Canonical x) = Canonical x \<and>
   map Canonical ''oO'' = ''00'' \<and>
   map Canonical ''iIlL'' = ''1111'' \<and>
   map Canonical ''abcdefghjkmnpqrstvwxyz'' = ''ABCDEFGHJKMNPQRSTVWXYZ'' \<and>
   map Canonical ''01ABCDEFGHJKMNPQRSTVWXYZ'' = ''01ABCDEFGHJKMNPQRSTVWXYZ''"
proof -
  have "map Canonical ''oO'' = ''00''" "map Canonical ''iIlL'' = ''1111''"
    "map Canonical ''01ABCDEFGHJKMNPQRSTVWXYZ'' = ''01ABCDEFGHJKMNPQRSTVWXYZ''"
    by (simp_all add: Canonical_def)
  then show ?thesis by (intro conjI Canonical_idem Canonical_lower)
qed

theorem Canonical_idempotent_witness:
  "Canonical (Canonical CHR ''l'') = Canonical CHR ''l'' \<and> Canonical CHR ''l'' = CHR ''1''"
  using Canonical_idempotent [of "CHR ''l''"] by (simp add: Canonical_def)

text \<open>
  C8. The constructor fails with \<open>invalid_argument\<close> exactly when some character of the
  string has no canonical form; otherwise it succeeds and \<open>Str()\<close> is the string with
  every character replaced by its canonical form. The empty string gives the code of
  size zero.
\<close>

theorem Base32Code_construction:
  "(Base32Code s = Inl invalid_argument \<longleftrightarrow> (\<exists>c \<in> set s. Canonical c = InvalidDigit)) \<and>
   ((\<forall>c \<in> set s. Canonical c \<noteq> InvalidDigit) \<longrightarrow>
      Base32Code s = Inr \<lparr>Str = map Canonical s\<rparr>) \<and>
   Base32Code [] = Inr \<lparr>Str = []\<rparr> \<and> Size \<lparr>Str = []\<rparr> = 0"
proof -
  have "Base32Code s = Inl invalid_argument \<longleftrightarrow> (\<exists>c \<in> set s. Canonical c = InvalidDigit)"
    by (auto simp: Base32Code_def canonicalize_eq)
  moreover have "(\<forall>c \<in> set s. Canonical c \<noteq> InvalidDigit) \<longrightarrow>
      Base32Code s = Inr \<lparr>Str = map Canonical s\<rparr>"
    using Base32Code_Inr by blast
  moreover have "Base32Code [] = Inr \<lparr>Str = []\<rparr>" "Size \<lparr>Str = []\<rparr> = 0"
    by (simp_all add: Base32Code_def Size_def)
  ultimately show ?thesis by blast
qed

theorem Base32Code_construction_witness:
  "IsValid_str ''abcdefghjkmnpqrstvwxyzoOlLiI'' \<and>
   Base32Code ''abcdefghjkmnpqrstvwxyzoOlLiI'' = Inr \<lparr>Str = ''ABCDEFGHJKMNPQRSTVWXYZ001111''\<rparr> \<and>
   (\<exists>c \<in> set ''Z0u''. Canonical c = InvalidDigit) \<and>
   Base32Code ''Z0u'' = Inl invalid_argument"
  using Base32Code_construction [of "''abcdefghjkmnpqrstvwxyzoOlLiI''"]
    Base32Code_construction [of "''Z0u''"]
  by (simp add: IsValid_str_def IsValid_def Canonical_def toupper_def InvalidDigit_def char_of_eq_iff)

text \<open>
  C9. The table \<open>Digits\<close> is the 32 distinct characters
  \<open>0123456789ABCDEFGHJKMNPQRSTVWXYZ\<close>, each at the position of its value: for every
  \<open>i\<close> from 0 to 31, \<open>Value\<close> of the \<open>i\<close>-th digit is \<open>i\<close> and \<open>Digit i\<close> is the \<open>i\<close>-th
  digit. \<open>Digit v\<close> is the null character \<open>InvalidDigit\<close> for every \<open>v\<close> outside 0..31,
  and \<open>Value c\<close> is -1 for every invalid character \<open>c\<close>.
\<close>

theorem Digits_table:
  "Digits = ''0123456789ABCDEFGHJKMNPQRSTVWXYZ'' \<and> length Digits = 32 \<and> distinct Digits \<and>
   (i < 32 \<longrightarrow> Value (Digits ! i) = of_nat i \<and> sint (Value (Digits ! i)) = int i
      \<and> Digit (of_nat i) = Digits ! i) \<and>
   (sint v < 0 \<or> 31 < sint v \<longrightarrow> Digit v = InvalidDigit) \<and>
   InvalidDigit = CHR 0x00 \<and>
   (\<not> IsValid c \<longrightarrow> Value c = InvalidValue) \<and>
   sint InvalidValue = - 1"
proof -
  have tab: "Digits = ''0123456789ABCDEFGHJKMNPQRSTVWXYZ''" by (simp add: Digits_def)
  have val: "i < 32 \<longrightarrow> Value (Digits ! i) = of_nat i \<and> sint (Value (Digits ! i)) = int i
      \<and> Digit (of_nat i) = Digits ! i"
    by (simp add: Value_Digits_nth Digit_of_nat sint_of_nat_small)
  have out: "sint v < 0 \<or> 31 < sint v \<longrightarrow> Digit v = InvalidDigit"
    by (auto simp: Digit_def length_Digits)
  have inv: "\<not> IsValid c \<longrightarrow> Value c = InvalidValue"
    by (simp add: IsValid_def Value_def)
  have m1: "sint InvalidValue = - 1" by (simp add: InvalidValue_def)
  have nul: "InvalidDigit = CHR 0x00" by (simp add: InvalidDigit_def)
  show ?thesis
    by (intro conjI tab length_Digits distinct_Digits val out nul inv m1)
qed

theorem Digits_table_witness:
  "(17::nat) < 32 \<and> Value (Digits ! 17) = 17 \<and> Digit 17 = CHR ''H'' \<and>
   31 < sint (32 :: 8 word) \<and> Digit 32 = InvalidDigit \<and>
   sint (200 :: 8 word) < 0 \<and> Digit 200 = InvalidDigit \<and>
   \<not> IsValid CHR ''U'' \<and> Value CHR ''U'' = InvalidValue"
proof -
  have H: "Digits ! 17 = CHR ''H''" by (simp add: Digits_def)
  have U: "\<not> IsValid CHR ''U''" by (simp add: IsValid_def Canonical_def)
  have s32: "31 < sint (32 :: 8 word)" by simp
  have s200: "sint (200 :: 8 word) < 0" by simp
  note t1 = Digits_table [of 17 32 "CHR ''U''", THEN conjunct2, THEN conjunct2, THEN conjunct2]
  note t2 = Digits_table [of 17 200 "CHR ''U''", THEN conjunct2, THEN conjunct2, THEN conjunct2]
  show ?thesis using t1 t2 H U s32 s200 by simp
qed

section \<open>Claims about encoding and decoding\<close>

text \<open>
  C10. Every value that \<open>Encode\<close> passes to \<open>Digit\<close> is a group of five bits, between
  0 and 31, since each one is cut out with the mask \<open>0x1f\<close>; so the string that \<open>Encode\<close>
  builds holds canonical digits only, never the sentinel \<open>InvalidDigit\<close>, the constructor
  called at the end does not throw, and \<open>Encode\<close> returns a code for every input.
\<close>

theorem Encode_total:
  "sint (ucast (drop_bit s (tmp AND push_bit s Mask)) :: 8 word) \<in> {0..31} \<and>
   sint (ucast (push_bit p tmp AND Mask) :: 8 word) \<in> {0..31} \<and>
   set (Encode_str bytes) \<subseteq> set Digits \<and>
   InvalidDigit \<notin> set (Encode_str bytes) \<and>
   Encode bytes = Inr \<lparr>Str = (if bytes = [] then [] else Encode_str bytes)\<rparr>"
proof -
  have five: "sint (of_nat (take_bit 5 n) :: 8 word) \<in> {0..31}" for n :: nat
  proof -
    have "take_bit 5 n < 32" using take_bit_nat_less_exp [of 5 n] by simp
    then show ?thesis by (simp add: sint_of_nat_small)
  qed
  have sub: "set (Encode_str bytes) \<subseteq> set Digits"
  proof (cases "bytes = []")
    case True
    then show ?thesis by (simp add: Encode_str_def DigitBits_def Mask_def Digit_def Digits_def)
  next
    case False
    show ?thesis unfolding Encode_str_digits [OF False] using dig_in_Digits by auto
  qed
  then have inv: "InvalidDigit \<notin> set (Encode_str bytes)"
    using InvalidDigit_notin_Digits by blast
  have enc: "Encode bytes = Inr \<lparr>Str = (if bytes = [] then [] else Encode_str bytes)\<rparr>"
    using Base32Code_canonical [OF sub] by (simp add: Encode_def Base32Code_def)
  show ?thesis
    using five sub inv enc by (simp only: digit_extract last_digit_extract) simp
qed

theorem Encode_total_witness:
  "Encode [0xF8, 0x3E] = Inr \<lparr>Str = Encode_str [0xF8, 0x3E]\<rparr> \<and>
   set (Encode_str [0xF8, 0x3E]) \<subseteq> set Digits"
  using Encode_total [of 0 0 0 "[0xF8, 0x3E]"] by simp

text \<open>
  C4. For a byte sequence of length \<open>l\<close>, \<open>Encode\<close> returns the code of
  \<open>ceil (l * 8 / 5)\<close> digits that the specification describes: the bits of the bytes,
  most significant first, cut into consecutive groups of five, the last group filled with
  zero bits at its low end, each group written as its digit. The empty byte sequence
  gives the empty code.
\<close>

theorem Encode_groups:
  "Encode bytes = Inr \<lparr>Str = Encode_spec bytes\<rparr> \<and>
   length (Encode_spec bytes) = (8 * length bytes + 4) div 5 \<and>
   Encode [] = Inr \<lparr>Str = []\<rparr>"
proof -
  have "Encode bytes = Inr \<lparr>Str = Encode_spec bytes\<rparr>"
    by (simp only: Encode_eq Encode_spec_digits)
  moreover have "length (Encode_spec bytes) = (8 * length bytes + 4) div 5"
    by (simp only: Encode_spec_digits length_map length_be_digits)
  moreover have "Encode [] = Inr \<lparr>Str = []\<rparr>"
    by (simp add: Encode_def Base32Code_def)
  ultimately show ?thesis by blast
qed

theorem Encode_groups_witness:
  "Encode [0xF8, 0x3E] = Inr \<lparr>Str = ''Z0Z0''\<rparr> \<and>
   length ''Z0Z0'' = (8 * length [0xF8 :: uint8_t, 0x3E] + 4) div 5"
proof -
  have "Encode_spec [0xF8, 0x3E] = ''Z0Z0''"
    by code_simp
  then show ?thesis using Encode_groups [of "[0xF8, 0x3E]"] by simp
qed

text \<open>
  C1, as the code has it. For every byte sequence \<open>b\<close>, \<open>Encode b\<close> is a code, and
  decoding it writes \<open>b\<close> followed by one zero byte when the bits of \<open>b\<close> are not a whole
  number of digits (\<open>8 * length b\<close> is not a multiple of 5), and exactly \<open>b\<close> when they
  are, as for the empty sequence. The number of bytes written is
  \<open>ceil (5 * Size / 8)\<close>, which is what \<open>DecodedSize()\<close> of the code returns when
  \<open>5 * Size\<close> fits an \<open>int\<close>.
\<close>

theorem Decode_Encode_roundtrip:
  "\<exists>c. Encode b = Inr c \<and>
     Decode c = b @ (if 8 * length b mod 5 = 0 then [] else [0]) \<and>
     length (Decode c) = (5 * Size c + 7) div 8 \<and>
     (5 * Size c < 2 ^ 31 \<longrightarrow> Code_DecodedSize c = Some (of_nat (length (Decode c))))"
proof -
  obtain c where c: "Encode b = Inr c" by (simp add: Encode_eq)
  have "Decode c = b @ (if 8 * length b mod 5 = 0 then [] else [0])"
    using c by (rule Decode_of_Encode)
  moreover have "length (Decode c) = (5 * Size c + 7) div 8"
    by (rule length_Decode)
  moreover have "5 * Size c < 2 ^ 31 \<longrightarrow> Code_DecodedSize c = Some (of_nat (length (Decode c)))"
    using Code_DecodedSize_in_range by blast
  ultimately show ?thesis using c by blast
qed

theorem Decode_Encode_roundtrip_witness:
  "Encode [0xF8, 0x3E] = Inr \<lparr>Str = ''Z0Z0''\<rparr> \<and>
   Decode \<lparr>Str = ''Z0Z0''\<rparr> = [0xF8, 0x3E, 0] \<and>
   5 * Size \<lparr>Str = ''Z0Z0''\<rparr> < 2 ^ 31 \<and>
   Code_DecodedSize \<lparr>Str = ''Z0Z0''\<rparr> = Some 3"
proof -
  have e: "Encode [0xF8, 0x3E] = Inr \<lparr>Str = ''Z0Z0''\<rparr>"
    by code_simp
  show ?thesis
    using Decode_Encode_roundtrip [of "[0xF8, 0x3E]"] by (auto simp: e Size_def)
qed

text \<open>
  The claim C1 as it is stated fails on the byte sequence of the single byte 0: its
  code is \<open>00\<close>, \<open>DecodedSize()\<close> of that code is 2, and \<open>Decode\<close> writes the two bytes
  0, 0, not the one byte 0.
\<close>

theorem Decode_Encode_counterexample:
  "Encode [0] = Inr \<lparr>Str = ''00''\<rparr> \<and>
   Code_DecodedSize \<lparr>Str = ''00''\<rparr> = Some 2 \<and>
   Decode \<lparr>Str = ''00''\<rparr> = [0, 0] \<and>
   Decode \<lparr>Str = ''00''\<rparr> \<noteq> [0]"
  by code_simp

text \<open>
  For every code \<open>c\<close>, which the constructor has returned for some string,
  \<open>Encode (Decode c)\<close> is \<open>c\<close> followed by zero digits \<open>0\<close>. Their number is
  \<open>ceil (B * 8 / 5) - Size c\<close>, where \<open>B = ceil (5 * Size c / 8)\<close> is the number of bytes
  that \<open>Decode c\<close> writes; it is zero exactly when \<open>5 * Size c\<close> is a multiple of 8.
  \<open>DecodedSize()\<close> returns \<open>B\<close> when \<open>5 * Size c\<close> fits an \<open>int\<close>.
\<close>

lemma Encode_Decode_roundtrip:
  assumes "Base32Code s = Inr c"
  shows "Encode (Decode c) =
      Inr \<lparr>Str = Str c @ replicate ((8 * length (Decode c) + 4) div 5 - Size c) CHR ''0''\<rparr> \<and>
    length (Decode c) = (5 * Size c + 7) div 8 \<and>
    ((8 * length (Decode c) + 4) div 5 - Size c = 0 \<longleftrightarrow> 5 * Size c mod 8 = 0) \<and>
    (5 * Size c < 2 ^ 31 \<longrightarrow> Code_DecodedSize c = Some (of_nat (length (Decode c))))"
proof -
  have canon: "set (Str c) \<subseteq> set Digits"
    using assms by (rule Base32Code_digits)
  have "Encode (Decode c) =
      Inr \<lparr>Str = Str c @ replicate ((8 * length (Decode c) + 4) div 5 - Size c) CHR ''0''\<rparr>"
    by (simp only: length_Decode Encode_of_Decode [OF canon])
  moreover have "(8 * length (Decode c) + 4) div 5 - Size c = 0 \<longleftrightarrow> 5 * Size c mod 8 = 0"
    by (simp only: length_Decode padding_digits_zero)
  moreover have "5 * Size c < 2 ^ 31 \<longrightarrow> Code_DecodedSize c = Some (of_nat (length (Decode c)))"
    using Code_DecodedSize_in_range by blast
  ultimately show ?thesis using length_Decode [of c] by blast
qed

lemma Encode_Decode_roundtrip_example:
  "Base32Code ''z0Z'' = Inr \<lparr>Str = ''Z0Z''\<rparr> \<and>
   Decode \<lparr>Str = ''Z0Z''\<rparr> = [0xF8, 0x3E] \<and>
   Encode (Decode \<lparr>Str = ''Z0Z''\<rparr>) = Inr \<lparr>Str = ''Z0Z0''\<rparr> \<and>
   5 * Size \<lparr>Str = ''Z0Z''\<rparr> < 2 ^ 31 \<and>
   Code_DecodedSize \<lparr>Str = ''Z0Z''\<rparr> = Some 2"
proof -
  have h: "Base32Code ''z0Z'' = Inr \<lparr>Str = ''Z0Z''\<rparr>"
    by code_simp
  have d: "Decode \<lparr>Str = ''Z0Z''\<rparr> = [0xF8, 0x3E]"
    by code_simp
  show ?thesis
    using Encode_Decode_roundtrip [OF h] by (simp add: h d Size_def)
qed

lemma Base32Code_zeros: "Base32Code (replicate n CHR ''0'') = Inr \<lparr>Str = replicate n CHR ''0''\<rparr>"
proof -
  have "set (replicate n CHR ''0'') \<subseteq> set Digits"
    by (auto simp: Digits_def)
  then show ?thesis by (rule Base32Code_canonical)
qed

lemma Size_zeros: "Size \<lparr>Str = replicate n CHR ''0''\<rparr> = n"
  by (simp add: Size_def)

text \<open>
  C2 at a code of \<open>2^32 + 1\<close> digits, here all \<open>0\<close>. \<open>Encode (Decode c)\<close> is the code
  followed by one digit \<open>0\<close>, and \<open>5 * Size\<close> is not a multiple of 8. But
  \<open>static_cast<int>\<close> in \<open>DecodedSize\<close> keeps the low 32 bits of the digit count, so
  \<open>DecodedSize()\<close> of the code is 1, not the 2684354561 bytes that \<open>Decode\<close> writes, and
  \<open>ceil (DecodedSize * 8 / 5) - Size\<close> is \<open>2 - Size\<close>, not the one digit of padding. This is
  the defect of C5. With the number of bytes that \<open>Decode\<close> writes in the place of
  \<open>DecodedSize\<close> the count holds for every code (lemma \<open>Encode_Decode_roundtrip\<close>).
\<close>

theorem Encode_Decode_padding_truncates:
  "Base32Code (replicate 4294967297 CHR ''0'') = Inr \<lparr>Str = replicate 4294967297 CHR ''0''\<rparr> \<and>
   Code_DecodedSize \<lparr>Str = replicate 4294967297 CHR ''0''\<rparr> = Some 1 \<and>
   length (Decode \<lparr>Str = replicate 4294967297 CHR ''0''\<rparr>) = 2684354561 \<and>
   Encode (Decode \<lparr>Str = replicate 4294967297 CHR ''0''\<rparr>)
     = Inr \<lparr>Str = replicate 4294967297 CHR ''0'' @ ''0''\<rparr> \<and>
   int ((8 * unat (1 :: size_t) + 4) div 5) - int (Size \<lparr>Str = replicate 4294967297 CHR ''0''\<rparr>)
     = - 4294967295 \<and>
   5 * Size \<lparr>Str = replicate 4294967297 CHR ''0''\<rparr> mod 8 = 5"
proof -
  have ds: "DecodedSize 4294967297 = Some 1"
    by code_simp
  have cds: "Code_DecodedSize \<lparr>Str = replicate 4294967297 CHR ''0''\<rparr> = Some 1"
    by (simp only: Code_DecodedSize_def Size_zeros) (simp add: ds)
  have len: "length (Decode \<lparr>Str = replicate 4294967297 CHR ''0''\<rparr>) = 2684354561"
    by (simp only: length_Decode Size_zeros)
  have canon: "set (Str \<lparr>Str = replicate 4294967297 CHR ''0''\<rparr>) \<subseteq> set Digits"
    by (auto simp: Digits_def)
  have k: "(8 * ((5 * 4294967297 + 7) div 8) + 4) div 5 - 4294967297 = Suc 0"
    by simp
  have "replicate (Suc 0) CHR ''0'' = ''0''" by simp
  then have enc: "Encode (Decode \<lparr>Str = replicate 4294967297 CHR ''0''\<rparr>)
     = Inr \<lparr>Str = replicate 4294967297 CHR ''0'' @ ''0''\<rparr>"
    by (simp only: Encode_of_Decode [OF canon] Size_zeros k Base32Code.simps)
  have cnt: "int ((8 * unat (1 :: size_t) + 4) div 5) - int (Size \<lparr>Str = replicate 4294967297 CHR ''0''\<rparr>)
     = - 4294967295"
    by (simp only: Size_zeros) simp
  have md: "5 * Size \<lparr>Str = replicate 4294967297 CHR ''0''\<rparr> mod 8 = 5"
    by (simp only: Size_zeros) simp
  show ?thesis
    by (intro conjI Base32Code_zeros cds len enc cnt md)
qed

text \<open>
  C3, as the code has it. After the loop of \<open>Decode\<close> over the digits of a code,
  \<open>shift\<close> is the number of bits read and not yet written, \<open>5 * Size mod 8\<close>, between 0
  and 7. Read as one number in base 32, each digit giving the low five bits of its
  \<open>Value\<close> (its value, for the canonical digits of a code), the digits have their last
  \<open>shift\<close> bits in the low bits of \<open>tmp\<close> and all the bits above them in the bytes
  written so far. When \<open>shift\<close> is not zero, which is when \<open>5 * Size\<close> is not a multiple
  of 8, \<open>Decode\<close> writes exactly one more byte: those last bits of the digits at its high
  end, zero bits below them. When it is zero \<open>Decode\<close> writes nothing more.
\<close>

theorem Decode_remaining_bits:
  assumes "decode_loop (Str c) 0 0 [] = (tmp, shift, out)"
  shows "shift = int (5 * Size c mod 8) \<and> 0 \<le> shift \<and> shift \<le> 7 \<and>
    length out = 5 * Size c div 8 \<and>
    take_bit (nat shift) (unat tmp)
      = take_bit (nat shift) (be_val 32 (map (\<lambda>d. take_bit 5 (unat (Value d))) (Str c))) \<and>
    out = map of_nat (be_digits 256 (5 * Size c div 8)
            (drop_bit (nat shift) (be_val 32 (map (\<lambda>d. take_bit 5 (unat (Value d))) (Str c))))) \<and>
    (5 * Size c mod 8 \<noteq> 0 \<longrightarrow>
       Decode c = out @ [ucast (push_bit (8 - nat shift) tmp)] \<and>
       unat (ucast (push_bit (8 - nat shift) tmp) :: uint8_t)
         = take_bit (nat shift) (be_val 32 (map (\<lambda>d. take_bit 5 (unat (Value d))) (Str c)))
             * 2 ^ (8 - nat shift) \<and>
       drop_bit (8 - nat shift) (ucast (push_bit (8 - nat shift) tmp) :: uint8_t)
         = ucast (take_bit (nat shift) tmp) \<and>
       take_bit (8 - nat shift) (ucast (push_bit (8 - nat shift) tmp) :: uint8_t) = 0) \<and>
    (5 * Size c mod 8 = 0 \<longrightarrow> Decode c = out)"
proof -
  define u where "u = 5 * Size c mod 8"
  define W where "W = be_val 32 (map (\<lambda>d. take_bit 5 (unat (Value d))) (Str c))"
  have u: "u < 8" by (simp add: u_def)
  have u8: "u \<le> 8" using u by simp
  from decode_loop_result [of "Str c"] assms
  have shift: "shift = int u"
    and out: "out = map of_nat (be_digits 256 (5 * Size c div 8) (drop_bit u W))"
    and win: "take_bit u (unat tmp) = take_bit u W"
    by (auto simp: u_def W_def Size_def)
  have len: "length out = 5 * Size c div 8"
    by (simp add: out length_be_digits)
  have dec: "Decode c = (if u = 0 then out else out @ [ucast (push_bit (8 - u) tmp)])"
    using u by (simp add: Decode_def assms shift CharBits_def nat_diff_distrib')
  have hi: "drop_bit (8 - u) (ucast (push_bit (8 - u) tmp) :: uint8_t) = ucast (take_bit u tmp)"
    using u by (intro bit_word_eqI) (auto simp: bit_simps)
  have lo: "take_bit (8 - u) (ucast (push_bit (8 - u) tmp) :: uint8_t) = 0"
    by (intro bit_word_eqI) (auto simp: bit_simps)
  have fb: "unat (ucast (push_bit (8 - u) tmp) :: uint8_t) = take_bit u W * 2 ^ (8 - u)"
  proof -
    have "take_bit 8 (push_bit (8 - u) W) = push_bit (8 - u) (take_bit (8 - (8 - u)) W)"
      by (rule take_bit_push_bit)
    then have v: "take_bit 8 (push_bit (8 - u) W) = take_bit u W * 2 ^ (8 - u)"
      using u8 by (simp add: push_bit_eq_mult)
    have "take_bit 8 (push_bit (8 - u) W) < 2 ^ 8"
      by (rule take_bit_nat_less_exp)
    then have small: "take_bit u W * 2 ^ (8 - u) < 256"
      by (simp add: v)
    define x where "x = take_bit u W * 2 ^ (8 - u)"
    have "(ucast (push_bit (8 - u) tmp) :: uint8_t) = of_nat x"
      by (simp only: last_byte_extract last_byte_window [OF u8 win] v x_def)
    moreover have "unat (of_nat x :: uint8_t) = x"
      using small by (simp only: unat_of_nat x_def [symmetric]) simp
    ultimately show ?thesis by (simp only: x_def)
  qed
  show ?thesis
    using u len dec hi lo fb win out
    by (simp add: shift u_def [symmetric] W_def [symmetric])
qed

theorem Decode_remaining_bits_witness:
  "decode_loop (Str \<lparr>Str = ''0Z0''\<rparr>) 0 0 [] = (992, 7, [7]) \<and>
   (7 :: int) = int (5 * Size \<lparr>Str = ''0Z0''\<rparr> mod 8) \<and>
   5 * Size \<lparr>Str = ''0Z0''\<rparr> mod 8 \<noteq> 0 \<and>
   take_bit (nat 7) (unat (992 :: uint16_t))
     = take_bit (nat 7) (be_val 32 (map (\<lambda>d. take_bit 5 (unat (Value d))) (Str \<lparr>Str = ''0Z0''\<rparr>))) \<and>
   Decode \<lparr>Str = ''0Z0''\<rparr> = [7] @ [ucast (push_bit (8 - nat 7) (992 :: uint16_t))] \<and>
   Decode \<lparr>Str = ''0Z0''\<rparr> = [7, 192]"
proof -
  have l: "decode_loop (Str \<lparr>Str = ''0Z0''\<rparr>) 0 0 [] = (992, 7, [7])"
    by code_simp
  have d: "Decode \<lparr>Str = ''0Z0''\<rparr> = [7, 192]"
    by code_simp
  have n: "5 * Size \<lparr>Str = ''0Z0''\<rparr> mod 8 \<noteq> 0"
    by (simp add: Size_def)
  note t = Decode_remaining_bits [OF l]
  have s: "(7 :: int) = int (5 * Size \<lparr>Str = ''0Z0''\<rparr> mod 8)"
    using t by (elim conjE)
  have w: "take_bit (nat 7) (unat (992 :: uint16_t))
     = take_bit (nat 7) (be_val 32 (map (\<lambda>d. take_bit 5 (unat (Value d))) (Str \<lparr>Str = ''0Z0''\<rparr>)))"
    using t by (elim conjE)
  have f: "Decode \<lparr>Str = ''0Z0''\<rparr> = [7] @ [ucast (push_bit (8 - nat 7) (992 :: uint16_t))]"
    using t n by (elim conjE) blast
  show ?thesis by (intro conjI l s n w f d)
qed

text \<open>
  The claim C3 as it is stated fails on the code \<open>Z\<close> of one digit: five bits remain
  after the loop, more than four, and \<open>Decode\<close> writes them as the byte \<open>0xF8\<close>.
\<close>

theorem Decode_remaining_bits_counterexample:
  "Base32Code ''Z'' = Inr \<lparr>Str = ''Z''\<rparr> \<and>
   decode_loop (Str \<lparr>Str = ''Z''\<rparr>) 0 0 [] = (31, 5, []) \<and>
   (5 :: int) \<notin> {1..4} \<and>
   Decode \<lparr>Str = ''Z''\<rparr> = [0xF8]"
  by code_simp

text \<open>
  C5 at a code of \<open>2^32\<close> digits: \<open>static_cast<int>\<close> keeps the low 32 bits of the
  digit count, so \<open>DecodedSize\<close> returns 0, where \<open>ceil (2^32 * 5 / 8)\<close> is 2684354560,
  the number of bytes that \<open>Decode\<close> writes for that code. Likewise the digit count
  \<open>2^32 - 1\<close> is cast to -1 and gives 1, and for 429496730 digits the product with 5
  is beyond \<open>INT_MAX\<close>. Where \<open>5 * digits\<close> fits an \<open>int\<close> the claim holds (lemmas
  \<open>DecodedSize_in_range\<close>, \<open>DecodedSize_spot_values\<close> and \<open>length_Decode\<close>).
\<close>

theorem DecodedSize_truncates:
  "DecodedSize 4294967296 = Some 0 \<and>
   DecodedSize 4294967295 = Some 1 \<and>
   DecodedSize 429496730 = None \<and>
   Base32Code (replicate 4294967296 CHR ''0'') = Inr \<lparr>Str = replicate 4294967296 CHR ''0''\<rparr> \<and>
   Code_DecodedSize \<lparr>Str = replicate 4294967296 CHR ''0''\<rparr> = Some 0 \<and>
   length (Decode \<lparr>Str = replicate 4294967296 CHR ''0''\<rparr>) = 2684354560"
proof -
  have zero: "DecodedSize 4294967296 = Some 0" "DecodedSize 4294967295 = Some 1"
    "DecodedSize 429496730 = None"
    by code_simp+
  have "set (replicate n CHR ''0'') \<subseteq> set Digits" for n
    by (auto simp: Digits_def)
  then have code: "Base32Code (replicate n CHR ''0'') = Inr \<lparr>Str = replicate n CHR ''0''\<rparr>" for n
    by (rule Base32Code_canonical)
  have size: "Size \<lparr>Str = replicate n CHR ''0''\<rparr> = n" for n
    by (simp add: Size_def)
  have "Code_DecodedSize \<lparr>Str = replicate 4294967296 CHR ''0''\<rparr> = DecodedSize 4294967296"
    by (simp only: Code_DecodedSize_def size) simp
  moreover have "length (Decode \<lparr>Str = replicate 4294967296 CHR ''0''\<rparr>) = 2684354560"
    by (simp only: length_Decode size)
  ultimately show ?thesis using zero code by (simp only:)
qed

end
